theory Spec2Isabelle
  imports Complex_Main "HOL-Library.Word" "HOL-Library.Sublist"
begin

section \<open>Frames, configuration and collaborators\<close>

text \<open>
  The development embeds \<^verbatim>\<open>BaseOutputTransport\<close> of
  \<^verbatim>\<open>src/pipecat/transports/base_output.py\<close>. Byte strings are lists of 8-bit words,
  Python integers are \<open>int\<close>.
\<close>

type_synonym byte = "8 word"
type_synonym bytes = "byte list"
type_synonym payload = string

datatype direction = Downstream | Upstream

record audio_raw =
  audio :: bytes
  sample_rate :: int
  num_channels :: int

record image_raw =
  image_data :: bytes
  image_size :: "int \<times> int"
  image_format :: "string option"

text \<open>
  Modelled from the spec: the frame classes of \<^verbatim>\<open>pipecat.frames.frames\<close> are imported by
  the transport but are not part of the sources at hand. The constructors are the frame
  kinds of the spec's data model; \<open>DataFrame\<close> stands for every other frame kind (the
  \<^verbatim>\<open>TextFrame\<close> of \<^verbatim>\<open>main.py\<close>, for one). The fields of an image frame are named
  \<open>image_data\<close>, \<open>image_size\<close> and \<open>image_format\<close> for the attributes
  \<^verbatim>\<open>image\<close>, \<^verbatim>\<open>size\<close> and \<^verbatim>\<open>format\<close>.
\<close>

datatype frame =
    StartFrame
  | CancelFrame
  | EndFrame
  | StartInterruptionFrame
  | StopInterruptionFrame
  | SystemFrame payload
  | AudioRawFrame audio_raw
  | ImageRawFrame image_raw
  | SpriteFrame "image_raw list"
  | TransportMessageFrame payload
  | MetricsFrame payload
  | DataFrame payload

datatype error = ValueError | StopIteration | ZeroDivisionError | ExternalError

text \<open>
  Modelled from the spec: \<^verbatim>\<open>TransportParams\<close> of \<^verbatim>\<open>pipecat.transports.base_transport\<close>
  is not part of the sources at hand; the fields are the options the transport reads.
\<close>

record transport_params =
  audio_out_enabled :: bool
  audio_out_sample_rate :: int
  audio_out_channels :: int
  camera_out_enabled :: bool
  camera_out_is_live :: bool
  camera_out_width :: int
  camera_out_height :: int
  camera_out_framerate :: int

text \<open>
  The image that the imaging library hands back: what \<^verbatim>\<open>_draw_image\<close> reads of it are
  \<^verbatim>\<open>tobytes()\<close>, \<^verbatim>\<open>size\<close> and \<^verbatim>\<open>format\<close>.
\<close>

record pil_image =
  tobytes :: bytes
  pil_size :: "int \<times> int"
  pil_format :: "string option"

text \<open>
  The four write operations are empty in the base class and are overridden by the concrete
  transports, so they are parameters here; \<open>Some e\<close> is the operation raising \<open>e\<close>.
  \<open>pil_resize frame size\<close> stands for the imaging library's
  \<^verbatim>\<open>Image.frombytes(frame.format, frame.size, frame.image).resize(size)\<close>, which raises on
  data it cannot decode and otherwise answers an image.
\<close>

record collaborators =
  write_raw_audio_frames :: "bytes \<Rightarrow> error option"
  write_frame_to_camera :: "image_raw \<Rightarrow> error option"
  send_message :: "payload \<Rightarrow> error option"
  send_metrics :: "payload \<Rightarrow> error option"
  pil_resize :: "image_raw \<Rightarrow> int \<times> int \<Rightarrow> error + pil_image"

datatype log_entry =
    ErrorWritingAudioFrames
  | ErrorProcessingSinkQueue
  | ErrorWritingToCamera
  | WarningUnexpectedSize

text \<open>
  Everything the transport does to the outside is recorded, in order, as a list of effects:
  a collaborator being called (with its argument, whether or not the call then raises),
  \<^verbatim>\<open>push_frame\<close> emitting a frame to the next processor, the image being resized, and
  the logger being called.
\<close>

datatype effect =
    WriteRawAudioFrames bytes
  | WriteFrameToCamera image_raw
  | SendMessage payload
  | SendMetrics payload
  | PushFrame frame direction
  | ImageResize image_raw "int \<times> int"
  | Log log_entry

section \<open>Python ranges and slices\<close>

text \<open>
  \<^verbatim>\<open>range(start, stop, step)\<close>: a zero step raises \<^verbatim>\<open>ValueError\<close>; the number of elements
  is the one the interpreter computes.
\<close>

definition range_length :: "int \<Rightarrow> int \<Rightarrow> int \<Rightarrow> nat" where
  "range_length lo hi step = (if lo < hi then nat ((hi - lo - 1) div step + 1) else 0)"

definition py_range :: "int \<Rightarrow> int \<Rightarrow> int \<Rightarrow> error + int list" where
  "py_range start stop step =
     (if step = 0 then Inl ValueError
      else if 0 < step then
        Inr (map (\<lambda>k. start + int k * step) [0..<range_length start stop step])
      else
        Inr (map (\<lambda>k. start + int k * step) [0..<range_length stop start (- step)]))"

text \<open>
  \<^verbatim>\<open>xs[i:j]\<close>: a negative bound counts from the end, and both bounds are clipped to the
  sequence. \<^verbatim>\<open>xs[:j]\<close> is \<open>py_slice xs 0 j\<close> and \<^verbatim>\<open>xs[i:]\<close> is \<open>py_slice_from xs i\<close>.
\<close>

definition slice_index :: "nat \<Rightarrow> int \<Rightarrow> nat" where
  "slice_index n i = (if i < 0 then nat (max 0 (int n + i)) else min n (nat i))"

definition py_slice :: "'a list \<Rightarrow> int \<Rightarrow> int \<Rightarrow> 'a list" where
  "py_slice xs i j =
     (let a = slice_index (length xs) i; b = slice_index (length xs) j
      in take (b - a) (drop a xs))"

definition py_slice_from :: "'a list \<Rightarrow> int \<Rightarrow> 'a list" where
  "py_slice_from xs i = drop (slice_index (length xs) i) xs"

text \<open>
  \<^verbatim>\<open>int(x / 100)\<close> on an integer \<open>x\<close>: the quotient, truncated towards zero (the
  quotient is taken exactly, as it is for every sample rate that a float holds exactly).
\<close>

definition int_div_100 :: "int \<Rightarrow> int" where
  "int_div_100 x = (if x < 0 then - ((- x) div 100) else x div 100)"

section \<open>The transport's state\<close>

text \<open>
  Both worker loops have the shape \<^verbatim>\<open>while self._running: try: ... except ...\<close>. A worker
  is either about to test \<^verbatim>\<open>self._running\<close>, or inside the loop body (where it waits on
  its queue), or has left the loop.
\<close>

datatype pc = AtLoopTest | InLoopBody | Exited

record sink_thread =
  sink_pc :: pc
  buffer :: bytes

text \<open>
  \<open>sink_threads\<close> and \<open>camera_threads\<close> hold every worker that \<^verbatim>\<open>start\<close> has handed to
  the executor, the most recent last. \<open>push_frame_task\<close> numbers the push task that is
  alive: \<^verbatim>\<open>_create_push_task\<close> makes the next one, and every task with a smaller number has
  been cancelled. \<open>camera_images\<close> is the \<^verbatim>\<open>itertools.cycle\<close> object: the images and the
  position of the next one.

  Modelled from the spec: \<open>interruptions_allowed\<close> is a property of the base class
  \<^verbatim>\<open>FrameProcessor\<close>, which is not part of the sources at hand; the spec has interruptions
  enabled or disabled for the transport, so it is a field that the transport only reads.
\<close>

record transport =
  params :: transport_params
  interruptions_allowed :: bool
  running :: bool
  camera_images :: "(image_raw list \<times> nat) option"
  camera_out_queue :: "image_raw list"
  sink_queue :: "frame list"
  stopped_event :: bool
  is_interrupted :: bool
  audio_chunk_size :: int
  push_frame_task :: nat
  push_queue :: "(frame \<times> direction) list"
  sink_threads :: "sink_thread list"
  camera_threads :: "pc list"
  trace :: "effect list"

definition init :: "transport_params \<Rightarrow> bool \<Rightarrow> transport" where
  "init p allow =
     \<lparr> params = p,
       interruptions_allowed = allow,
       running = False,
       camera_images = None,
       camera_out_queue = [],
       sink_queue = [],
       stopped_event = False,
       is_interrupted = False,
       audio_chunk_size = int_div_100 (audio_out_sample_rate p) * audio_out_channels p * 2,
       push_frame_task = 0,
       push_queue = [],
       sink_threads = [],
       camera_threads = [],
       trace = [] \<rparr>"

definition emit :: "effect \<Rightarrow> transport \<Rightarrow> transport" where
  "emit e s = s\<lparr>trace := trace s @ [e]\<rparr>"

section \<open>Lifecycle\<close>

definition start :: "transport \<Rightarrow> transport" where
  "start s =
     (if running s then s
      else
        let s1 = s\<lparr>running := True\<rparr>;
            s2 = (if camera_out_enabled (params s1)
                  then s1\<lparr>camera_threads := camera_threads s1 @ [AtLoopTest]\<rparr>
                  else s1)
        in s2\<lparr>sink_threads := sink_threads s2 @ [\<lparr>sink_pc = AtLoopTest, buffer = []\<rparr>]\<rparr>)"

definition stop :: "transport \<Rightarrow> transport" where
  "stop s =
     (if \<not> running s then s
      else s\<lparr>running := False, stopped_event := True\<rparr>)"

section \<open>Push frames task\<close>

text \<open>\<^verbatim>\<open>FrameProcessor.push_frame\<close>: the frame leaves the transport.\<close>

definition push_frame :: "frame \<Rightarrow> direction \<Rightarrow> transport \<Rightarrow> transport" where
  "push_frame f d s = emit (PushFrame f d) s"

definition create_push_task :: "transport \<Rightarrow> transport" where
  "create_push_task s = s\<lparr>push_frame_task := Suc (push_frame_task s), push_queue := []\<rparr>"

definition internal_push_frame :: "frame \<Rightarrow> direction \<Rightarrow> transport \<Rightarrow> transport" where
  "internal_push_frame f d s = s\<lparr>push_queue := push_queue s @ [(f, d)]\<rparr>"

text \<open>
  One resumption of push task number \<open>k\<close>. A cancelled task gets \<^verbatim>\<open>CancelledError\<close> and
  leaves its loop. The live task takes the head of \<^verbatim>\<open>self._push_queue\<close> and pushes it; on
  an empty queue it stays suspended in \<^verbatim>\<open>get\<close>. Taking an item and pushing it is one step:
  an item that has been taken is no longer pending in the queue.
\<close>

definition push_frame_task_handler :: "nat \<Rightarrow> transport \<Rightarrow> transport" where
  "push_frame_task_handler k s =
     (if k \<noteq> push_frame_task s then s
      else case push_queue s of
             [] \<Rightarrow> s
           | (f, d) # rest \<Rightarrow> push_frame f d (s\<lparr>push_queue := rest\<rparr>))"

section \<open>Frame processor\<close>

definition handle_interruptions :: "frame \<Rightarrow> transport \<Rightarrow> transport" where
  "handle_interruptions f s =
     (if \<not> interruptions_allowed s then s
      else if f = StartInterruptionFrame then create_push_task (s\<lparr>is_interrupted := True\<rparr>)
      else if f = StopInterruptionFrame then s\<lparr>is_interrupted := False\<rparr>
      else s)"

definition put_nowait :: "frame \<Rightarrow> transport \<Rightarrow> transport" where
  "put_nowait f s = s\<lparr>sink_queue := sink_queue s @ [f]\<rparr>"

definition audio_chunk :: "audio_raw \<Rightarrow> int \<Rightarrow> int \<Rightarrow> frame" where
  "audio_chunk f c i =
     AudioRawFrame \<lparr>audio = py_slice (audio f) i (i + c),
                    sample_rate = sample_rate f,
                    num_channels = num_channels f\<rparr>"

definition handle_audio :: "audio_raw \<Rightarrow> transport \<Rightarrow> error + transport" where
  "handle_audio f s =
     (case py_range 0 (int (length (audio f))) (audio_chunk_size s) of
        Inl e \<Rightarrow> Inl e
      | Inr idxs \<Rightarrow>
          Inr (foldl (\<lambda>s' i. put_nowait (audio_chunk f (audio_chunk_size s) i) s') s idxs))"

text \<open>
  The \<^verbatim>\<open>if\<close>/\<^verbatim>\<open>elif\<close> chain of \<^verbatim>\<open>process_frame\<close>, in its order. The start, cancel and
  interruption frames are system frames and are caught before the \<^verbatim>\<open>SystemFrame\<close> test.
\<close>

fun dispatch :: "frame \<Rightarrow> direction \<Rightarrow> transport \<Rightarrow> error + transport" where
  "dispatch StartFrame d s = Inr (push_frame StartFrame d (start s))"
| "dispatch CancelFrame d s = Inr (push_frame CancelFrame d (stop s))"
| "dispatch StartInterruptionFrame d s =
     Inr (push_frame StartInterruptionFrame d (handle_interruptions StartInterruptionFrame s))"
| "dispatch StopInterruptionFrame d s =
     Inr (push_frame StopInterruptionFrame d (handle_interruptions StopInterruptionFrame s))"
| "dispatch (SystemFrame p) d s = Inr (push_frame (SystemFrame p) d s)"
| "dispatch (AudioRawFrame a) d s = handle_audio a s"
| "dispatch f d s = Inr (put_nowait f s)"

text \<open>
  A call of \<^verbatim>\<open>process_frame\<close> returns, raises, or is left waiting on the stopped event;
  a waiting call returns once some later step sets the event. The call of the base class's
  \<^verbatim>\<open>process_frame\<close> at the beginning touches none of the transport's own fields and is
  left out.
\<close>

datatype outcome = Returned | Waiting | Raised error

definition process_frame :: "frame \<Rightarrow> direction \<Rightarrow> transport \<Rightarrow> outcome \<times> transport" where
  "process_frame f d s =
     (case dispatch f d s of
        Inl e \<Rightarrow> (Raised e, s)
      | Inr s' \<Rightarrow>
          if (f = CancelFrame \<or> f = EndFrame) \<and> \<not> stopped_event s'
          then (Waiting, s')
          else (Returned, s'))"

section \<open>Audio out\<close>

definition maybe_send_audio :: "collaborators \<Rightarrow> bytes \<Rightarrow> transport \<Rightarrow> bytes \<times> transport" where
  "maybe_send_audio c buf s =
     (if audio_chunk_size s \<le> int (length buf) then
        (let s1 = emit (WriteRawAudioFrames (py_slice buf 0 (audio_chunk_size s))) s
         in case write_raw_audio_frames c (py_slice buf 0 (audio_chunk_size s)) of
              Some e \<Rightarrow> (buf, emit (Log ErrorWritingAudioFrames) s1)
            | None \<Rightarrow> (py_slice_from buf (audio_chunk_size s), s1))
      else (buf, s))"

section \<open>Camera out\<close>

definition set_camera_image :: "image_raw \<Rightarrow> transport \<Rightarrow> transport" where
  "set_camera_image img s =
     (if camera_out_is_live (params s)
      then s\<lparr>camera_out_queue := camera_out_queue s @ [img]\<rparr>
      else s\<lparr>camera_images := Some ([img], 0)\<rparr>)"

definition set_camera_images :: "image_raw list \<Rightarrow> transport \<Rightarrow> transport" where
  "set_camera_images imgs s = s\<lparr>camera_images := Some (imgs, 0)\<rparr>"

definition call_write_frame_to_camera ::
  "collaborators \<Rightarrow> image_raw \<Rightarrow> transport \<Rightarrow> error option \<times> transport" where
  "call_write_frame_to_camera c f s = (write_frame_to_camera c f, emit (WriteFrameToCamera f) s)"

text \<open>
  \<^verbatim>\<open>_draw_image\<close>. The frame that is written after a resize is made of the bytes, the
  size and the format of the image that the library has answered; an exception of the
  library leaves the function.
\<close>

definition draw_image ::
  "collaborators \<Rightarrow> image_raw \<Rightarrow> transport \<Rightarrow> error option \<times> transport" where
  "draw_image c f s =
     (let desired_size = (camera_out_width (params s), camera_out_height (params s))
      in if image_size f \<noteq> desired_size then
           (let s1 = emit (ImageResize f desired_size) s
            in case pil_resize c f desired_size of
                 Inl e \<Rightarrow> (Some e, s1)
               | Inr resized_image \<Rightarrow>
                   call_write_frame_to_camera c
                     \<lparr>image_data = tobytes resized_image,
                      image_size = pil_size resized_image,
                      image_format = pil_format resized_image\<rparr>
                     (emit (Log WarningUnexpectedSize) s1))
         else call_write_frame_to_camera c f s)"

text \<open>\<^verbatim>\<open>time.sleep(1.0 / framerate)\<close> raises on a zero or negative frame rate.\<close>

definition sleep_frame :: "transport \<Rightarrow> error option" where
  "sleep_frame s =
     (if camera_out_framerate (params s) = 0 then Some ZeroDivisionError
      else if camera_out_framerate (params s) < 0 then Some ValueError
      else None)"

definition camera_iteration :: "collaborators \<Rightarrow> transport \<Rightarrow> error option \<times> transport" where
  "camera_iteration c s =
     (if camera_out_is_live (params s) then
        (case camera_out_queue s of
           [] \<Rightarrow> (None, s)
         | img # rest \<Rightarrow> draw_image c img (s\<lparr>camera_out_queue := rest\<rparr>))
      else
        (case camera_images s of
           Some (imgs, k) \<Rightarrow>
             (if imgs = [] then (Some StopIteration, s)
              else
                (case draw_image c (imgs ! k) (s\<lparr>camera_images := Some (imgs, Suc k mod length imgs)\<rparr>) of
                   (Some e, s') \<Rightarrow> (Some e, s')
                 | (None, s') \<Rightarrow> (sleep_frame s', s')))
         | None \<Rightarrow> (sleep_frame s, s)))"

definition camera_out_thread_handler :: "collaborators \<Rightarrow> nat \<Rightarrow> transport \<Rightarrow> transport" where
  "camera_out_thread_handler c i s =
     (if length (camera_threads s) \<le> i then s
      else case camera_threads s ! i of
             Exited \<Rightarrow> s
           | AtLoopTest \<Rightarrow>
               s\<lparr>camera_threads :=
                   (camera_threads s)[i := (if running s then InLoopBody else Exited)]\<rparr>
           | InLoopBody \<Rightarrow>
               (case camera_iteration c s of
                  (Some e, s') \<Rightarrow>
                    (emit (Log ErrorWritingToCamera) s')
                      \<lparr>camera_threads := (camera_threads s')[i := AtLoopTest]\<rparr>
                | (None, s') \<Rightarrow> s'\<lparr>camera_threads := (camera_threads s')[i := AtLoopTest]\<rparr>))"

section \<open>Sink thread\<close>

text \<open>
  The branch taken for a dequeued frame while the transport is not interrupted. The result
  is the exception that left the branch (if any), the worker's buffer and the state.
\<close>

fun sink_write ::
  "collaborators \<Rightarrow> frame \<Rightarrow> bytes \<Rightarrow> transport \<Rightarrow> error option \<times> bytes \<times> transport" where
  "sink_write c (AudioRawFrame a) buf s =
     (if audio_out_enabled (params s)
      then (case maybe_send_audio c (buf @ audio a) s of (buf', s') \<Rightarrow> (None, buf', s'))
      else (None, buf, internal_push_frame (AudioRawFrame a) Downstream s))"
| "sink_write c (ImageRawFrame img) buf s =
     (if camera_out_enabled (params s)
      then (None, buf, set_camera_image img s)
      else (None, buf, internal_push_frame (ImageRawFrame img) Downstream s))"
| "sink_write c (SpriteFrame imgs) buf s =
     (if camera_out_enabled (params s)
      then (None, buf, set_camera_images imgs s)
      else (None, buf, internal_push_frame (SpriteFrame imgs) Downstream s))"
| "sink_write c (TransportMessageFrame m) buf s = (send_message c m, buf, emit (SendMessage m) s)"
| "sink_write c (MetricsFrame m) buf s = (send_metrics c m, buf, emit (SendMetrics m) s)"
| "sink_write c f buf s = (None, buf, internal_push_frame f Downstream s)"

text \<open>
  The body of the loop for one dequeued frame: the branch above, or the buffer cleared
  while interrupted; then the \<^verbatim>\<open>EndFrame\<close> test. An exception skips the rest of the body
  and is logged by the handler around it.
\<close>

definition sink_iteration ::
  "collaborators \<Rightarrow> frame \<Rightarrow> bytes \<Rightarrow> transport \<Rightarrow> bytes \<times> transport" where
  "sink_iteration c f buf s =
     (case (if \<not> is_interrupted s then sink_write c f buf s else (None, [], s)) of
        (Some e, buf', s') \<Rightarrow> (buf', emit (Log ErrorProcessingSinkQueue) s')
      | (None, buf', s') \<Rightarrow> (buf', if f = EndFrame then stop s' else s'))"

definition sink_thread_handler :: "collaborators \<Rightarrow> nat \<Rightarrow> transport \<Rightarrow> transport" where
  "sink_thread_handler c i s =
     (if length (sink_threads s) \<le> i then s
      else case sink_pc (sink_threads s ! i) of
             Exited \<Rightarrow> s
           | AtLoopTest \<Rightarrow>
               s\<lparr>sink_threads :=
                   (sink_threads s)[i := (sink_threads s ! i)
                      \<lparr>sink_pc := (if running s then InLoopBody else Exited)\<rparr>]\<rparr>
           | InLoopBody \<Rightarrow>
               (case sink_queue s of
                  [] \<Rightarrow>
                    s\<lparr>sink_threads :=
                        (sink_threads s)[i := (sink_threads s ! i)\<lparr>sink_pc := AtLoopTest\<rparr>]\<rparr>
                | f # rest \<Rightarrow>
                    (case sink_iteration c f (buffer (sink_threads s ! i)) (s\<lparr>sink_queue := rest\<rparr>) of
                       (buf', s') \<Rightarrow>
                         s'\<lparr>sink_threads :=
                              (sink_threads s')[i := \<lparr>sink_pc = AtLoopTest, buffer = buf'\<rparr>]\<rparr>)))"

section \<open>Executions\<close>

text \<open>
  What can happen next: a call of \<^verbatim>\<open>process_frame\<close>, a step of a sink or camera worker,
  a call of \<^verbatim>\<open>_internal_push_frame\<close> from outside the sink worker, or a resumption of a
  push task.
\<close>

datatype action =
    Process frame direction
  | SinkStep nat
  | CameraStep nat
  | InternalPush frame direction
  | PushStep nat

fun step :: "collaborators \<Rightarrow> transport \<Rightarrow> action \<Rightarrow> transport" where
  "step c s (Process f d) = snd (process_frame f d s)"
| "step c s (SinkStep i) = sink_thread_handler c i s"
| "step c s (CameraStep i) = camera_out_thread_handler c i s"
| "step c s (InternalPush f d) = internal_push_frame f d s"
| "step c s (PushStep k) = push_frame_task_handler k s"

definition run :: "collaborators \<Rightarrow> transport \<Rightarrow> action list \<Rightarrow> transport" where
  "run c s acts = foldl (step c) s acts"

text \<open>
  The items that are put on the push queue. \<^verbatim>\<open>_internal_push_frame\<close> is called in one place
  of the transport, the last branch of the sink worker's chain; \<open>passed_on s f\<close> says that
  the dequeued frame \<open>f\<close> gets there. \<open>put_by s a\<close> is what the step \<open>a\<close> puts on the queue
  in the state \<open>s\<close>, and \<open>puts c s acts\<close> what a whole schedule puts, in order.
\<close>

fun passed_on :: "transport \<Rightarrow> frame \<Rightarrow> bool" where
  "passed_on s (AudioRawFrame a) = (\<not> audio_out_enabled (params s))"
| "passed_on s (ImageRawFrame img) = (\<not> camera_out_enabled (params s))"
| "passed_on s (SpriteFrame imgs) = (\<not> camera_out_enabled (params s))"
| "passed_on s (TransportMessageFrame m) = False"
| "passed_on s (MetricsFrame m) = False"
| "passed_on s f = True"

fun put_by :: "transport \<Rightarrow> action \<Rightarrow> (frame \<times> direction) list" where
  "put_by s (InternalPush f d) = [(f, d)]"
| "put_by s (SinkStep i) =
     (if i < length (sink_threads s) \<and> sink_pc (sink_threads s ! i) = InLoopBody
         \<and> \<not> is_interrupted s
      then (case sink_queue s of
              [] \<Rightarrow> []
            | f # rest \<Rightarrow> if passed_on s f then [(f, Downstream)] else [])
      else [])"
| "put_by s a = []"

fun puts :: "collaborators \<Rightarrow> transport \<Rightarrow> action list \<Rightarrow> (frame \<times> direction) list" where
  "puts c s [] = []"
| "puts c s (a # acts) = put_by s a @ puts c (step c s a) acts"

text \<open>
  \<open>push_idle s s'\<close>: going from \<open>s\<close> to \<open>s'\<close> leaves the push queue and the push task alone
  and only adds effects.
\<close>

definition push_idle :: "transport \<Rightarrow> transport \<Rightarrow> bool" where
  "push_idle s s' =
     (push_queue s' = push_queue s
      \<and> push_frame_task s' = push_frame_task s
      \<and> prefix (trace s) (trace s'))"

section \<open>Predicates on states\<close>

text \<open>
  \<open>no_audio_failure\<close>: no write to the audio sink has raised so far. \<open>chunked_queue\<close>: no
  audio frame in the sink queue is longer than a chunk. \<open>buffers_below_chunk\<close>: the buffer
  of every sink worker is shorter than a chunk. \<open>keeps s s'\<close>: going from \<open>s\<close> to \<open>s'\<close>
  leaves the chunk size, the sink workers and the sink queue alone and only adds effects.
\<close>

definition no_audio_failure :: "transport \<Rightarrow> bool" where
  "no_audio_failure s = (Log ErrorWritingAudioFrames \<notin> set (trace s))"

fun within_chunk :: "int \<Rightarrow> frame \<Rightarrow> bool" where
  "within_chunk n (AudioRawFrame a) = (int (length (audio a)) \<le> n)"
| "within_chunk n f = True"

definition chunked_queue :: "transport \<Rightarrow> bool" where
  "chunked_queue s = list_all (within_chunk (audio_chunk_size s)) (sink_queue s)"

definition buffers_below_chunk :: "transport \<Rightarrow> bool" where
  "buffers_below_chunk s =
     list_all (\<lambda>t. int (length (buffer t)) < audio_chunk_size s) (sink_threads s)"

definition keeps :: "transport \<Rightarrow> transport \<Rightarrow> bool" where
  "keeps s s' =
     (audio_chunk_size s' = audio_chunk_size s
      \<and> sink_threads s' = sink_threads s
      \<and> sink_queue s' = sink_queue s
      \<and> set (trace s) \<subseteq> set (trace s'))"

section \<open>A sample configuration\<close>

text \<open>
  A transport with a sample rate of 100 Hz and one channel, hence a chunk size of two bytes,
  and a live camera of two by two pixels; it is the concrete input of the examples below.
\<close>

definition params0 :: transport_params where
  "params0 =
     \<lparr> audio_out_enabled = True,
       audio_out_sample_rate = 100,
       audio_out_channels = 1,
       camera_out_enabled = True,
       camera_out_is_live = True,
       camera_out_width = 2,
       camera_out_height = 2,
       camera_out_framerate = 10 \<rparr>"

definition audio0 :: "bytes \<Rightarrow> audio_raw" where
  "audio0 bs = \<lparr>audio = bs, sample_rate = 16000, num_channels = 1\<rparr>"

text \<open>
  A stand-in for the imaging library: it decodes the pixel mode \<open>L\<close> (one byte a pixel)
  when the data has the length of the stated size, and raises on every other input; the
  answer to a resize is a black image of the size asked for, which, made in memory, has no
  file format.
\<close>

definition sample_resize :: "image_raw \<Rightarrow> int \<times> int \<Rightarrow> error + pil_image" where
  "sample_resize f sz =
     (if image_format f = Some ''L''
         \<and> int (length (image_data f)) = fst (image_size f) * snd (image_size f)
      then Inr \<lparr>tobytes = replicate (nat (fst sz * snd sz)) 0, pil_size = sz, pil_format = None\<rparr>
      else Inl ValueError)"

text \<open>
  The collaborators of the base class, whose write operations do nothing, with the stand-in
  imaging library; and the same with an audio sink whose write always raises.
\<close>

definition base_collaborators :: collaborators where
  "base_collaborators =
     \<lparr> write_raw_audio_frames = (\<lambda>_. None),
       write_frame_to_camera = (\<lambda>_. None),
       send_message = (\<lambda>_. None),
       send_metrics = (\<lambda>_. None),
       pil_resize = sample_resize \<rparr>"

definition failing_audio_sink :: collaborators where
  "failing_audio_sink = base_collaborators\<lparr>write_raw_audio_frames := (\<lambda>_. Some ExternalError)\<rparr>"

definition image0 :: "int \<times> int \<Rightarrow> image_raw" where
  "image0 sz = \<lparr>image_data = replicate (nat (fst sz * snd sz)) 255, image_size = sz,
                 image_format = Some ''L''\<rparr>"

text \<open>
  The sample transport after the start frame, once both workers have entered their loops
  and wait there.
\<close>

definition started :: transport where
  "started =
     run base_collaborators (init params0 True)
       [Process StartFrame Downstream, SinkStep 0, CameraStep 0]"

section \<open>The audio chunker\<close>

lemma foldl_put_nowait:
  "foldl (\<lambda>s' i. put_nowait (g i) s') s idxs = s\<lparr>sink_queue := sink_queue s @ map g idxs\<rparr>"
  by (induction idxs arbitrary: s) (simp_all add: put_nowait_def)

lemma py_slice_chunk:
  "0 \<le> i \<Longrightarrow> 0 < c \<Longrightarrow> py_slice xs i (i + c) = take (nat c) (drop (nat i) xs)"
  by (auto simp: py_slice_def slice_index_def Let_def min_def nat_add_distrib)

lemma concat_chunks:
  "concat (map (\<lambda>k. take c (drop (k * c) xs)) [0..<n]) = take (n * c) xs"
proof (induction n)
  case 0
  show ?case by simp
next
  case (Suc n)
  have "take (n * c) xs @ take c (drop (n * c) xs) = take (n * c + c) xs"
    by (simp add: take_add)
  with Suc show ?case by (simp add: add.commute)
qed

lemma range_length_nat:
  assumes "0 < l"
  shows "range_length 0 (int l) (int c) = Suc ((l - 1) div c)"
proof -
  from assms obtain m where l: "l = Suc m" by (cases l) auto
  have "(int l - 0 - 1) div int c + 1 = int (Suc (m div c))"
    by (simp add: l zdiv_int)
  then have "nat ((int l - 0 - 1) div int c + 1) = Suc (m div c)"
    by (simp only: nat_int)
  with l show ?thesis by (simp add: range_length_def)
qed

lemma range_length_lower:
  assumes "0 < c"
  shows "l \<le> range_length 0 (int l) (int c) * c"
proof (cases "l = 0")
  case True
  then show ?thesis by simp
next
  case False
  then have n: "range_length 0 (int l) (int c) = (l - 1) div c + 1"
    by (simp add: range_length_nat)
  have "l - 1 < ((l - 1) div c + 1) * c"
    using assms by (metis Suc_eq_plus1 dividend_less_div_times mult.commute mult_Suc)
  with False n show ?thesis by simp
qed

lemma range_length_upper:
  assumes "0 < c" "Suc k < range_length 0 (int l) (int c)"
  shows "Suc k * c < l"
proof -
  from assms(2) have l: "0 < l" by (auto simp: range_length_def split: if_splits)
  then have n: "range_length 0 (int l) (int c) = (l - 1) div c + 1"
    by (simp add: range_length_nat)
  with assms(2) have "Suc k \<le> (l - 1) div c" by simp
  then have "Suc k * c \<le> (l - 1) div c * c" by (rule mult_le_mono1)
  also have "\<dots> \<le> l - 1" by simp
  finally show ?thesis using l by simp
qed

text \<open>With a positive chunk size the chunker appends one frame per index of the range.\<close>

lemma handle_audio_eq:
  assumes "0 < audio_chunk_size s"
  shows "handle_audio f s =
           Inr (s\<lparr>sink_queue := sink_queue s @
                  map (\<lambda>k. AudioRawFrame
                         \<lparr>audio = take (nat (audio_chunk_size s))
                                    (drop (k * nat (audio_chunk_size s)) (audio f)),
                          sample_rate = sample_rate f, num_channels = num_channels f\<rparr>)
                      [0..<range_length 0 (int (length (audio f))) (audio_chunk_size s)]\<rparr>)"
proof -
  have "audio_chunk f (audio_chunk_size s) (0 + int k * audio_chunk_size s) =
          AudioRawFrame
            \<lparr>audio = take (nat (audio_chunk_size s)) (drop (k * nat (audio_chunk_size s)) (audio f)),
             sample_rate = sample_rate f, num_channels = num_channels f\<rparr>" for k
    using assms by (simp add: audio_chunk_def py_slice_chunk nat_mult_distrib)
  with assms show ?thesis
    by (simp add: handle_audio_def py_range_def foldl_put_nowait comp_def)
qed

text \<open>A zero chunk size makes \<^verbatim>\<open>range\<close> raise, whatever the frame.\<close>

lemma handle_audio_zero_chunk_size:
  "audio_chunk_size s = 0 \<Longrightarrow> handle_audio f s = Inl ValueError"
  by (simp add: handle_audio_def py_range_def)

text \<open>
  C2. With a chunk size \<open>C > 0\<close>, an audio frame of \<open>L\<close> bytes makes the chunker append to
  the sink queue, in order, exactly \<open>\<lceil>L / C\<rceil>\<close> audio frames; each but possibly the last
  holds exactly \<open>C\<close> bytes, the lengths add up to \<open>L\<close>, the payloads concatenated in queue
  order are the original payload, and each chunk has the sample rate and the channel count
  of the original frame.
\<close>

theorem handle_audio_chunks:
  assumes "0 < audio_chunk_size s"
  shows "\<exists>chunks.
           handle_audio f s = Inr (s\<lparr>sink_queue := sink_queue s @ map AudioRawFrame chunks\<rparr>)
         \<and> int (length chunks) = \<lceil>real (length (audio f)) / real_of_int (audio_chunk_size s)\<rceil>
         \<and> (\<forall>k. Suc k < length chunks \<longrightarrow> int (length (audio (chunks ! k))) = audio_chunk_size s)
         \<and> (\<Sum>c\<leftarrow>chunks. length (audio c)) = length (audio f)
         \<and> concat (map audio chunks) = audio f
         \<and> (\<forall>c\<in>set chunks. sample_rate c = sample_rate f \<and> num_channels c = num_channels f)"
proof -
  define c where "c = nat (audio_chunk_size s)"
  define xs where "xs = audio f"
  define n where "n = range_length 0 (int (length xs)) (int c)"
  define chunks where
    "chunks = map (\<lambda>k. \<lparr>audio = take c (drop (k * c) xs),
                        sample_rate = sample_rate f, num_channels = num_channels f\<rparr>) [0..<n]"
  from assms have c: "0 < c" and ic: "int c = audio_chunk_size s"
    by (simp_all add: c_def)
  have lower: "length xs \<le> n * c"
    unfolding n_def using c by (rule range_length_lower)
  have upper: "Suc k * c < length xs" if "Suc k < n" for k
    using c that unfolding n_def by (rule range_length_upper)
  have 1: "handle_audio f s = Inr (s\<lparr>sink_queue := sink_queue s @ map AudioRawFrame chunks\<rparr>)"
    using handle_audio_eq [OF assms, of f]
    by (simp add: chunks_def n_def xs_def ic [symmetric] comp_def)
  have 2: "int (length chunks) = \<lceil>real (length (audio f)) / real_of_int (audio_chunk_size s)\<rceil>"
  proof -
    have "real_of_int (int n) - 1 < real (length xs) / real c"
    proof (cases n)
      case 0
      have "- 1 < (0::real)" by simp
      also have "0 \<le> real (length xs) / real c" by simp
      finally show ?thesis using 0 by simp
    next
      case (Suc m)
      show ?thesis
      proof (cases m)
        case 0
        with Suc lower c have "0 < length xs"
          by (auto simp: n_def range_length_def split: if_splits)
        with Suc 0 c show ?thesis by simp
      next
        case (Suc k)
        with \<open>n = Suc m\<close> have "Suc k * c < length xs" by (intro upper) simp
        then have "real (Suc k * c) < real (length xs)" by (simp only: of_nat_less_iff)
        with c Suc \<open>n = Suc m\<close> show ?thesis
          by (simp add: pos_less_divide_eq algebra_simps)
      qed
    qed
    moreover have "real (length xs) / real c \<le> real_of_int (int n)"
    proof -
      from lower have "real (length xs) \<le> real (n * c)" by (simp only: of_nat_le_iff)
      with c show ?thesis by (simp add: pos_divide_le_eq)
    qed
    ultimately have "\<lceil>real (length xs) / real c\<rceil> = int n" by (rule ceiling_unique)
    moreover have "real_of_int (audio_chunk_size s) = real c" using ic [symmetric] by simp
    ultimately show ?thesis by (simp add: chunks_def xs_def)
  qed
  have 3: "int (length (audio (chunks ! k))) = audio_chunk_size s" if "Suc k < length chunks" for k
  proof -
    from that have k: "Suc k < n" by (simp add: chunks_def)
    then have "k * c + c < length xs" using upper [of k] by (simp add: add.commute)
    with k show ?thesis by (simp add: chunks_def ic [symmetric])
  qed
  have 5: "concat (map audio chunks) = audio f"
    using lower by (simp add: chunks_def comp_def concat_chunks xs_def)
  have "(\<Sum>c\<leftarrow>chunks. length (audio c)) = length (concat (map audio chunks))"
    by (simp add: length_concat comp_def)
  with 5 have 4: "(\<Sum>c\<leftarrow>chunks. length (audio c)) = length (audio f)" by simp
  have 6: "\<forall>c\<in>set chunks. sample_rate c = sample_rate f \<and> num_channels c = num_channels f"
    by (auto simp: chunks_def)
  from 1 2 3 4 5 6 show ?thesis by blast
qed

text \<open>The sample transport cuts five bytes into chunks of two, two and one.\<close>

theorem handle_audio_chunks_witness:
  "0 < audio_chunk_size (init params0 True)
   \<and> (\<exists>chunks.
         handle_audio (audio0 [1, 2, 3, 4, 5]) (init params0 True) =
           Inr ((init params0 True)\<lparr>sink_queue := map AudioRawFrame chunks\<rparr>)
       \<and> length chunks = 3
       \<and> concat (map audio chunks) = [1, 2, 3, 4, 5])"
proof -
  have h: "0 < audio_chunk_size (init params0 True)"
    by (simp add: init_def params0_def int_div_100_def)
  have q: "sink_queue (init params0 True) = []"
    by (simp add: init_def)
  have r: "\<lceil>real (length (audio (audio0 [1, 2, 3, 4, 5]))) /
          real_of_int (audio_chunk_size (init params0 True))\<rceil> = 3"
    by (simp add: init_def params0_def int_div_100_def audio0_def)
  from handle_audio_chunks [OF h, of "audio0 [1, 2, 3, 4, 5]"] obtain chunks where
    1: "handle_audio (audio0 [1, 2, 3, 4, 5]) (init params0 True) =
          Inr ((init params0 True)
                 \<lparr>sink_queue := sink_queue (init params0 True) @ map AudioRawFrame chunks\<rparr>)"
    and 2: "int (length chunks) =
              \<lceil>real (length (audio (audio0 [1, 2, 3, 4, 5]))) /
                real_of_int (audio_chunk_size (init params0 True))\<rceil>"
    and 3: "concat (map audio chunks) = audio (audio0 [1, 2, 3, 4, 5])"
    by blast
  from 2 r have "length chunks = 3" by simp
  moreover from 1 q have "handle_audio (audio0 [1, 2, 3, 4, 5]) (init params0 True) =
      Inr ((init params0 True)\<lparr>sink_queue := map AudioRawFrame chunks\<rparr>)" by simp
  moreover from 3 have "concat (map audio chunks) = [1, 2, 3, 4, 5]" by (simp add: audio0_def)
  ultimately show ?thesis using h by blast
qed

section \<open>Empty audio frames\<close>

lemma handle_audio_empty_eq:
  "audio f = [] \<Longrightarrow> audio_chunk_size s \<noteq> 0 \<Longrightarrow> handle_audio f s = Inr s"
  by (simp add: handle_audio_def py_range_def range_length_def)

text \<open>
  C8. An audio frame with an empty payload makes the chunker enqueue nothing: processing it
  leaves the whole state as it was, so the sink queue, the effects and the push queue are
  unchanged and nothing reaches the audio sink or the next processor. With a chunk size
  other than zero the call returns normally (with a chunk size of zero \<^verbatim>\<open>range\<close> raises,
  the state still unchanged).
\<close>

theorem empty_audio_dropped:
  assumes "audio f = []"
  shows "snd (process_frame (AudioRawFrame f) d s) = s
       \<and> (audio_chunk_size s \<noteq> 0 \<longrightarrow>
            handle_audio f s = Inr s \<and> process_frame (AudioRawFrame f) d s = (Returned, s))"
  using assms
  by (auto simp: process_frame_def handle_audio_def py_range_def range_length_def)

theorem empty_audio_dropped_witness:
  "audio (audio0 []) = []
   \<and> audio_chunk_size (init params0 True) \<noteq> 0
   \<and> process_frame (AudioRawFrame (audio0 [])) Downstream (init params0 True)
       = (Returned, init params0 True)"
proof -
  have a: "audio (audio0 []) = []" by (simp add: audio0_def)
  have c: "audio_chunk_size (init params0 True) \<noteq> 0"
    by (simp add: init_def params0_def int_div_100_def)
  from empty_audio_dropped [OF a, of Downstream "init params0 True"] a c show ?thesis by blast
qed

section \<open>Flushing the accumulation buffer\<close>

lemma py_slice_prefix: "0 \<le> c \<Longrightarrow> py_slice xs 0 c = take (nat c) xs"
  by (auto simp: py_slice_def slice_index_def min_def)

lemma py_slice_from_suffix: "0 \<le> c \<Longrightarrow> py_slice_from xs c = drop (nat c) xs"
  by (auto simp: py_slice_from_def slice_index_def min_def)

lemma maybe_send_audio_pos:
  assumes "0 < audio_chunk_size s"
  shows "maybe_send_audio c buf s =
     (if length buf < nat (audio_chunk_size s) then (buf, s)
      else case write_raw_audio_frames c (take (nat (audio_chunk_size s)) buf) of
             None \<Rightarrow> (drop (nat (audio_chunk_size s)) buf,
                      emit (WriteRawAudioFrames (take (nat (audio_chunk_size s)) buf)) s)
           | Some e \<Rightarrow> (buf, emit (Log ErrorWritingAudioFrames)
                               (emit (WriteRawAudioFrames (take (nat (audio_chunk_size s)) buf)) s)))"
  using assms
  by (auto simp: maybe_send_audio_def Let_def py_slice_prefix py_slice_from_suffix split: option.splits)


text \<open>
  C4, amended. When a sink worker inside its loop takes an audio frame off the sink queue
  while audio output is enabled and the transport is not interrupted, it appends the
  payload to its buffer and then makes at most one flush: if the buffer holds at least a
  chunk, the first chunk-size bytes are written to the audio sink once and, when the write
  returns, the rest is kept (when it raises, everything is kept and the failure is logged).
  A frame of at most a chunk, taken on a buffer of less than a chunk, leaves less than a
  chunk behind when the write returns.
\<close>

theorem sink_audio_single_flush:
  assumes "i < length (sink_threads s)"
    and "sink_pc (sink_threads s ! i) = InLoopBody"
    and "sink_queue s = AudioRawFrame a # rest"
    and "audio_out_enabled (params s)"
    and "\<not> is_interrupted s"
    and "0 < audio_chunk_size s"
  shows "sink_thread_handler c i s =
           (if length (buffer (sink_threads s ! i) @ audio a) < nat (audio_chunk_size s) then
              s\<lparr>sink_queue := rest,
                sink_threads := (sink_threads s)
                  [i := \<lparr>sink_pc = AtLoopTest, buffer = buffer (sink_threads s ! i) @ audio a\<rparr>]\<rparr>
            else
              case write_raw_audio_frames c
                     (take (nat (audio_chunk_size s)) (buffer (sink_threads s ! i) @ audio a)) of
                None \<Rightarrow>
                  s\<lparr>sink_queue := rest,
                    trace := trace s @
                      [WriteRawAudioFrames
                         (take (nat (audio_chunk_size s)) (buffer (sink_threads s ! i) @ audio a))],
                    sink_threads := (sink_threads s)
                      [i := \<lparr>sink_pc = AtLoopTest,
                             buffer = drop (nat (audio_chunk_size s))
                                        (buffer (sink_threads s ! i) @ audio a)\<rparr>]\<rparr>
              | Some e \<Rightarrow>
                  s\<lparr>sink_queue := rest,
                    trace := trace s @
                      [WriteRawAudioFrames
                         (take (nat (audio_chunk_size s)) (buffer (sink_threads s ! i) @ audio a)),
                       Log ErrorWritingAudioFrames],
                    sink_threads := (sink_threads s)
                      [i := \<lparr>sink_pc = AtLoopTest,
                             buffer = buffer (sink_threads s ! i) @ audio a\<rparr>]\<rparr>)
       \<and> (length (buffer (sink_threads s ! i)) < nat (audio_chunk_size s)
            \<and> length (audio a) \<le> nat (audio_chunk_size s)
            \<and> write_raw_audio_frames c
                 (take (nat (audio_chunk_size s)) (buffer (sink_threads s ! i) @ audio a)) = None
          \<longrightarrow> length (buffer (sink_threads (sink_thread_handler c i s) ! i))
                < nat (audio_chunk_size s))"
proof -
  let ?b = "buffer (sink_threads s ! i) @ audio a"
  let ?n = "nat (audio_chunk_size s)"
  let ?s0 = "s\<lparr>sink_queue := rest\<rparr>"
  have c0: "0 < audio_chunk_size ?s0" "audio_chunk_size ?s0 = audio_chunk_size s"
    using assms(6) by simp_all
  have it: "sink_iteration c (AudioRawFrame a) (buffer (sink_threads s ! i)) ?s0
              = maybe_send_audio c ?b ?s0"
    using assms(4,5) by (simp add: sink_iteration_def split: prod.splits)
  have h: "sink_thread_handler c i s =
             (case maybe_send_audio c ?b ?s0 of
                (buf', s') \<Rightarrow>
                  s'\<lparr>sink_threads := (sink_threads s')[i := \<lparr>sink_pc = AtLoopTest, buffer = buf'\<rparr>]\<rparr>)"
    using assms(1,2,3) by (simp add: sink_thread_handler_def it)
  have 1: "sink_thread_handler c i s =
           (if length ?b < ?n then
              s\<lparr>sink_queue := rest,
                sink_threads := (sink_threads s)[i := \<lparr>sink_pc = AtLoopTest, buffer = ?b\<rparr>]\<rparr>
            else
              case write_raw_audio_frames c (take ?n ?b) of
                None \<Rightarrow>
                  s\<lparr>sink_queue := rest,
                    trace := trace s @ [WriteRawAudioFrames (take ?n ?b)],
                    sink_threads := (sink_threads s)
                      [i := \<lparr>sink_pc = AtLoopTest, buffer = drop ?n ?b\<rparr>]\<rparr>
              | Some e \<Rightarrow>
                  s\<lparr>sink_queue := rest,
                    trace := trace s @ [WriteRawAudioFrames (take ?n ?b), Log ErrorWritingAudioFrames],
                    sink_threads := (sink_threads s)
                      [i := \<lparr>sink_pc = AtLoopTest, buffer = ?b\<rparr>]\<rparr>)"
    unfolding h maybe_send_audio_pos [OF c0(1)]
    by (simp add: emit_def split: option.splits)
  have 2: "length (buffer (sink_threads (sink_thread_handler c i s) ! i)) < ?n"
    if "length (buffer (sink_threads s ! i)) < ?n" and "length (audio a) \<le> ?n"
      and "write_raw_audio_frames c (take ?n ?b) = None"
    unfolding 1 using that assms(1) by simp arith
  from 1 2 show ?thesis by blast
qed

text \<open>
  On the started sample transport with one byte buffered, a chunk of two bytes makes one
  write of two bytes and leaves one byte.
\<close>

theorem sink_audio_single_flush_witness:
  "sink_threads (run base_collaborators started
       [Process (AudioRawFrame (audio0 [1])) Downstream, SinkStep 0, SinkStep 0,
        Process (AudioRawFrame (audio0 [2, 3])) Downstream])
     = [\<lparr>sink_pc = InLoopBody, buffer = [1]\<rparr>]
   \<and> sink_queue (run base_collaborators started
       [Process (AudioRawFrame (audio0 [1])) Downstream, SinkStep 0, SinkStep 0,
        Process (AudioRawFrame (audio0 [2, 3])) Downstream])
     = [AudioRawFrame (audio0 [2, 3])]
   \<and> sink_threads (sink_thread_handler base_collaborators 0
        (run base_collaborators started
          [Process (AudioRawFrame (audio0 [1])) Downstream, SinkStep 0, SinkStep 0,
           Process (AudioRawFrame (audio0 [2, 3])) Downstream]))
     = [\<lparr>sink_pc = AtLoopTest, buffer = [3]\<rparr>]
   \<and> trace (sink_thread_handler base_collaborators 0
        (run base_collaborators started
          [Process (AudioRawFrame (audio0 [1])) Downstream, SinkStep 0, SinkStep 0,
           Process (AudioRawFrame (audio0 [2, 3])) Downstream]))
     = [PushFrame StartFrame Downstream, WriteRawAudioFrames [1, 2]]"
proof -
  let ?s = "run base_collaborators started
          [Process (AudioRawFrame (audio0 [1])) Downstream, SinkStep 0, SinkStep 0,
           Process (AudioRawFrame (audio0 [2, 3])) Downstream]"
  have t: "sink_threads ?s = [\<lparr>sink_pc = InLoopBody, buffer = [1]\<rparr>]" by code_simp
  have h: "0 < length (sink_threads ?s)" "sink_pc (sink_threads ?s ! 0) = InLoopBody"
    "sink_queue ?s = AudioRawFrame (audio0 [2, 3]) # []"
    "audio_out_enabled (params ?s)" "\<not> is_interrupted ?s" "0 < audio_chunk_size ?s"
    by code_simp+
  have v: "nat (audio_chunk_size ?s) = 2" "trace ?s = [PushFrame StartFrame Downstream]"
    by code_simp+
  have w: "write_raw_audio_frames base_collaborators = (\<lambda>_. None)"
    by (simp add: base_collaborators_def)
  have b: "buffer (sink_threads ?s ! 0) = [1]" "audio (audio0 [2, 3]) = [2, 3]"
    by code_simp+
  from sink_audio_single_flush [OF h, of base_collaborators]
  have e: "sink_thread_handler base_collaborators 0 ?s =
          ?s\<lparr>sink_queue := [], trace := trace ?s @ [WriteRawAudioFrames [1, 2]],
              sink_threads := (sink_threads ?s)[0 := \<lparr>sink_pc = AtLoopTest, buffer = [3]\<rparr>]\<rparr>"
    by (simp add: v(1) w b)
  have "sink_threads (sink_thread_handler base_collaborators 0 ?s)
          = [\<lparr>sink_pc = AtLoopTest, buffer = [3]\<rparr>]"
    unfolding e by (simp add: t)
  moreover have "trace (sink_thread_handler base_collaborators 0 ?s)
          = [PushFrame StartFrame Downstream, WriteRawAudioFrames [1, 2]]"
    unfolding e by (simp add: v(2))
  ultimately show ?thesis using t h(3) by simp
qed

text \<open>
  The claim as stated fails on a buffer that an earlier failed write has left full. The
  sink raises on the chunk \<open>[1, 2]\<close>, which stays in the buffer; the chunk \<open>[3, 4]\<close> is
  then taken with a sink that works: the worker writes \<open>[1, 2]\<close>, once, and keeps
  \<open>[3, 4]\<close>, a full chunk, although the buffer still held a chunk after that write.
\<close>

theorem sink_audio_flush_counterexample:
  "sink_threads (run failing_audio_sink started
       [Process (AudioRawFrame (audio0 [1, 2])) Downstream, SinkStep 0, SinkStep 0,
        Process (AudioRawFrame (audio0 [3, 4])) Downstream])
     = [\<lparr>sink_pc = InLoopBody, buffer = [1, 2]\<rparr>]
   \<and> sink_queue (run failing_audio_sink started
       [Process (AudioRawFrame (audio0 [1, 2])) Downstream, SinkStep 0, SinkStep 0,
        Process (AudioRawFrame (audio0 [3, 4])) Downstream])
     = [AudioRawFrame (audio0 [3, 4])]
   \<and> audio_out_enabled (params (run failing_audio_sink started
       [Process (AudioRawFrame (audio0 [1, 2])) Downstream, SinkStep 0, SinkStep 0,
        Process (AudioRawFrame (audio0 [3, 4])) Downstream]))
   \<and> \<not> is_interrupted (run failing_audio_sink started
       [Process (AudioRawFrame (audio0 [1, 2])) Downstream, SinkStep 0, SinkStep 0,
        Process (AudioRawFrame (audio0 [3, 4])) Downstream])
   \<and> audio_chunk_size (run failing_audio_sink started
       [Process (AudioRawFrame (audio0 [1, 2])) Downstream, SinkStep 0, SinkStep 0,
        Process (AudioRawFrame (audio0 [3, 4])) Downstream]) = 2
   \<and> trace (sink_thread_handler base_collaborators 0
        (run failing_audio_sink started
          [Process (AudioRawFrame (audio0 [1, 2])) Downstream, SinkStep 0, SinkStep 0,
           Process (AudioRawFrame (audio0 [3, 4])) Downstream]))
     = trace (run failing_audio_sink started
          [Process (AudioRawFrame (audio0 [1, 2])) Downstream, SinkStep 0, SinkStep 0,
           Process (AudioRawFrame (audio0 [3, 4])) Downstream])
       @ [WriteRawAudioFrames [1, 2]]
   \<and> sink_threads (sink_thread_handler base_collaborators 0
        (run failing_audio_sink started
          [Process (AudioRawFrame (audio0 [1, 2])) Downstream, SinkStep 0, SinkStep 0,
           Process (AudioRawFrame (audio0 [3, 4])) Downstream]))
     = [\<lparr>sink_pc = AtLoopTest, buffer = [3, 4]\<rparr>]
   \<and> \<not> int (length [3, 4 :: byte]) < 2"
  by code_simp


section \<open>The sample transport, started\<close>

lemma started_eq:
  "started =
     \<lparr> params = params0, interruptions_allowed = True, running = True, camera_images = None,
       camera_out_queue = [], sink_queue = [], stopped_event = False, is_interrupted = False,
       audio_chunk_size = 2, push_frame_task = 0, push_queue = [],
       sink_threads = [\<lparr>sink_pc = InLoopBody, buffer = []\<rparr>],
       camera_threads = [InLoopBody],
       trace = [PushFrame StartFrame Downstream] \<rparr>"
  by (simp add: started_def run_def process_frame_def start_def push_frame_def emit_def init_def
      sink_thread_handler_def camera_out_thread_handler_def params0_def int_div_100_def Let_def)

section \<open>A failing audio sink\<close>

text \<open>When the write raises, \<^verbatim>\<open>_maybe_send_audio\<close> returns the buffer it was given.\<close>

lemma maybe_send_audio_write_raises:
  assumes "audio_chunk_size s \<le> int (length buf)"
    and "write_raw_audio_frames c (py_slice buf 0 (audio_chunk_size s)) = Some e"
  shows "fst (maybe_send_audio c buf s) = buf"
  using assms by (simp add: maybe_send_audio_def Let_def)

lemma sink_iteration_audio_eq:
  "audio_out_enabled (params s) \<Longrightarrow> \<not> is_interrupted s \<Longrightarrow>
   sink_iteration c (AudioRawFrame a) buf s = maybe_send_audio c (buf @ audio a) s"
  by (simp add: sink_iteration_def split: prod.splits)

text \<open>
  C6. When the sink worker takes an audio frame (audio output enabled, not interrupted), the
  buffer with the frame's bytes appended holds at least a chunk, and the write of that
  chunk raises: the failure is logged, the worker's buffer is the old buffer with the
  frame's bytes appended, nothing removed (so the chunk that was not written is still its
  prefix), the frame has left the queue, and the worker is back at its loop test, from
  where it enters the loop body again as long as the transport is running.
\<close>

theorem audio_write_failure_keeps_buffer:
  assumes "i < length (sink_threads s)"
    and "sink_pc (sink_threads s ! i) = InLoopBody"
    and "sink_queue s = AudioRawFrame a # rest"
    and "audio_out_enabled (params s)"
    and "\<not> is_interrupted s"
    and "audio_chunk_size s \<le> int (length (buffer (sink_threads s ! i) @ audio a))"
    and "write_raw_audio_frames c
           (py_slice (buffer (sink_threads s ! i) @ audio a) 0 (audio_chunk_size s)) = Some e"
  shows "sink_thread_handler c i s =
           s\<lparr>sink_queue := rest,
             trace := trace s @
               [WriteRawAudioFrames
                  (py_slice (buffer (sink_threads s ! i) @ audio a) 0 (audio_chunk_size s)),
                Log ErrorWritingAudioFrames],
             sink_threads := (sink_threads s)
               [i := \<lparr>sink_pc = AtLoopTest, buffer = buffer (sink_threads s ! i) @ audio a\<rparr>]\<rparr>
       \<and> (running s \<longrightarrow>
            sink_pc (sink_threads (sink_thread_handler c i (sink_thread_handler c i s)) ! i)
              = InLoopBody)"
proof -
  let ?b = "buffer (sink_threads s ! i) @ audio a"
  let ?s0 = "s\<lparr>sink_queue := rest\<rparr>"
  have "maybe_send_audio c ?b ?s0 =
          (?b, emit (Log ErrorWritingAudioFrames)
                 (emit (WriteRawAudioFrames (py_slice ?b 0 (audio_chunk_size s))) ?s0))"
    using assms(6,7) by (simp add: maybe_send_audio_def Let_def)
  then have it: "sink_iteration c (AudioRawFrame a) (buffer (sink_threads s ! i)) ?s0 =
          (?b, emit (Log ErrorWritingAudioFrames)
                 (emit (WriteRawAudioFrames (py_slice ?b 0 (audio_chunk_size s))) ?s0))"
    using assms(4,5) by (simp add: sink_iteration_audio_eq)
  have 1: "sink_thread_handler c i s =
           s\<lparr>sink_queue := rest,
             trace := trace s @ [WriteRawAudioFrames (py_slice ?b 0 (audio_chunk_size s)),
                                Log ErrorWritingAudioFrames],
             sink_threads := (sink_threads s)[i := \<lparr>sink_pc = AtLoopTest, buffer = ?b\<rparr>]\<rparr>"
    using assms(1,2,3) by (simp add: sink_thread_handler_def it emit_def)
  have 2: "sink_pc (sink_threads (sink_thread_handler c i (sink_thread_handler c i s)) ! i)
              = InLoopBody" if "running s"
    unfolding 1 using assms(1) that by (simp add: sink_thread_handler_def)
  from 1 2 show ?thesis by blast
qed


text \<open>
  On the started sample transport with a sink that always raises, a chunk of two bytes stays
  in the buffer.
\<close>

theorem audio_write_failure_keeps_buffer_witness:
  "sink_thread_handler failing_audio_sink 0
     (snd (process_frame (AudioRawFrame (audio0 [1, 2])) Downstream started)) =
   started\<lparr>trace := trace started @ [WriteRawAudioFrames [1, 2], Log ErrorWritingAudioFrames],
           sink_threads := [\<lparr>sink_pc = AtLoopTest, buffer = [1, 2]\<rparr>]\<rparr>"
proof -
  let ?s = "snd (process_frame (AudioRawFrame (audio0 [1, 2])) Downstream started)"
  have h: "0 < length (sink_threads ?s)"
    "sink_pc (sink_threads ?s ! 0) = InLoopBody"
    "sink_queue ?s = AudioRawFrame (audio0 [1, 2]) # []"
    "audio_out_enabled (params ?s)"
    "\<not> is_interrupted ?s"
    "audio_chunk_size ?s \<le> int (length (buffer (sink_threads ?s ! 0) @ audio (audio0 [1, 2])))"
    "write_raw_audio_frames failing_audio_sink
       (py_slice (buffer (sink_threads ?s ! 0) @ audio (audio0 [1, 2])) 0 (audio_chunk_size ?s))
       = Some ExternalError"
    by code_simp+
  have e: "?s\<lparr>sink_queue := [],
             trace := trace ?s @
               [WriteRawAudioFrames
                  (py_slice (buffer (sink_threads ?s ! 0) @ audio (audio0 [1, 2])) 0 (audio_chunk_size ?s)),
                Log ErrorWritingAudioFrames],
             sink_threads := (sink_threads ?s)
               [0 := \<lparr>sink_pc = AtLoopTest, buffer = buffer (sink_threads ?s ! 0) @ audio (audio0 [1, 2])\<rparr>]\<rparr>
        = started\<lparr>trace := trace started @ [WriteRawAudioFrames [1, 2], Log ErrorWritingAudioFrames],
           sink_threads := [\<lparr>sink_pc = AtLoopTest, buffer = [1, 2]\<rparr>]\<rparr>"
    by code_simp
  from audio_write_failure_keeps_buffer [OF h] e show ?thesis by simp
qed

section \<open>The end frame in the sink worker\<close>

text \<open>
  The loop body on an end frame, and on any frame while interrupted.
\<close>

lemma sink_iteration_end_frame:
  "sink_iteration c EndFrame buf s =
     (if is_interrupted s then ([], stop s)
      else (buf, stop (internal_push_frame EndFrame Downstream s)))"
  by (simp add: sink_iteration_def)

lemma sink_iteration_interrupted:
  "is_interrupted s \<Longrightarrow> sink_iteration c f buf s = ([], if f = EndFrame then stop s else s)"
  by (simp add: sink_iteration_def)

text \<open>
  C10. When a sink worker inside its loop takes an \<^verbatim>\<open>EndFrame\<close> off the sink queue, it
  calls \<^verbatim>\<open>stop\<close> whether or not the transport is interrupted: afterwards the running flag
  is clear, and the stopped event is set if the transport was running. While interrupted
  nothing else is done with a dequeued frame, whatever its kind: the frame leaves the
  queue, the worker's buffer is cleared, the worker goes back to its loop test, and no
  collaborator, push queue or effect is touched.
\<close>

theorem end_frame_stops_while_interrupted:
  assumes "i < length (sink_threads s)"
    and "sink_pc (sink_threads s ! i) = InLoopBody"
    and "sink_queue s = f # rest"
  shows "(f = EndFrame \<longrightarrow>
            sink_thread_handler c i s =
              (if is_interrupted s
               then (stop (s\<lparr>sink_queue := rest\<rparr>))
                      \<lparr>sink_threads :=
                         (sink_threads s)[i := \<lparr>sink_pc = AtLoopTest, buffer = []\<rparr>]\<rparr>
               else (stop (internal_push_frame EndFrame Downstream (s\<lparr>sink_queue := rest\<rparr>)))
                      \<lparr>sink_threads :=
                         (sink_threads s)
                           [i := \<lparr>sink_pc = AtLoopTest, buffer = buffer (sink_threads s ! i)\<rparr>]\<rparr>)
          \<and> \<not> running (sink_thread_handler c i s)
          \<and> (running s \<longrightarrow> stopped_event (sink_thread_handler c i s)))
       \<and> (is_interrupted s \<longrightarrow>
            sink_thread_handler c i s =
              (if f = EndFrame then stop (s\<lparr>sink_queue := rest\<rparr>) else s\<lparr>sink_queue := rest\<rparr>)
                \<lparr>sink_threads := (sink_threads s)[i := \<lparr>sink_pc = AtLoopTest, buffer = []\<rparr>]\<rparr>)"
proof -
  have 1: "sink_thread_handler c i s =
              (if is_interrupted s
               then (stop (s\<lparr>sink_queue := rest\<rparr>))
                      \<lparr>sink_threads :=
                         (sink_threads s)[i := \<lparr>sink_pc = AtLoopTest, buffer = []\<rparr>]\<rparr>
               else (stop (internal_push_frame EndFrame Downstream (s\<lparr>sink_queue := rest\<rparr>)))
                      \<lparr>sink_threads :=
                         (sink_threads s)
                           [i := \<lparr>sink_pc = AtLoopTest, buffer = buffer (sink_threads s ! i)\<rparr>]\<rparr>)"
    if "f = EndFrame"
    using assms that
    by (simp add: sink_thread_handler_def sink_iteration_end_frame stop_def internal_push_frame_def)
  have 2: "\<not> running (sink_thread_handler c i s)"
    "running s \<longrightarrow> stopped_event (sink_thread_handler c i s)" if "f = EndFrame"
    unfolding 1 [OF that] by (simp_all add: stop_def internal_push_frame_def)
  have 3: "sink_thread_handler c i s =
              (if f = EndFrame then stop (s\<lparr>sink_queue := rest\<rparr>) else s\<lparr>sink_queue := rest\<rparr>)
                \<lparr>sink_threads := (sink_threads s)[i := \<lparr>sink_pc = AtLoopTest, buffer = []\<rparr>]\<rparr>"
    if "is_interrupted s"
    using assms that
    by (simp add: sink_thread_handler_def sink_iteration_interrupted stop_def)
  from 1 2 3 show ?thesis by blast
qed

text \<open>
  On the started sample transport, interrupted and with an end frame in the sink queue, the
  worker's step clears the running flag and sets the stopped event.
\<close>

theorem end_frame_stops_while_interrupted_witness:
  "sink_threads (run base_collaborators started
       [Process StartInterruptionFrame Downstream, Process EndFrame Downstream])
     = [\<lparr>sink_pc = InLoopBody, buffer = []\<rparr>]
   \<and> sink_queue (run base_collaborators started
       [Process StartInterruptionFrame Downstream, Process EndFrame Downstream]) = [EndFrame]
   \<and> is_interrupted (run base_collaborators started
       [Process StartInterruptionFrame Downstream, Process EndFrame Downstream])
   \<and> running (run base_collaborators started
       [Process StartInterruptionFrame Downstream, Process EndFrame Downstream])
   \<and> \<not> running (sink_thread_handler base_collaborators 0
         (run base_collaborators started
            [Process StartInterruptionFrame Downstream, Process EndFrame Downstream]))
   \<and> stopped_event (sink_thread_handler base_collaborators 0
         (run base_collaborators started
            [Process StartInterruptionFrame Downstream, Process EndFrame Downstream]))"
proof -
  let ?s = "run base_collaborators started
              [Process StartInterruptionFrame Downstream, Process EndFrame Downstream]"
  have t: "sink_threads ?s = [\<lparr>sink_pc = InLoopBody, buffer = []\<rparr>]" by code_simp
  have h: "0 < length (sink_threads ?s)" "sink_pc (sink_threads ?s ! 0) = InLoopBody"
    "sink_queue ?s = EndFrame # []"
    by code_simp+
  have r: "is_interrupted ?s" "running ?s" by code_simp+
  from end_frame_stops_while_interrupted [OF h, of base_collaborators] r
  have "\<not> running (sink_thread_handler base_collaborators 0 ?s)"
    "stopped_event (sink_thread_handler base_collaborators 0 ?s)"
    by blast+
  with t h(3) r show ?thesis by blast
qed


section \<open>Resize and write\<close>




section \<open>Stopping a transport that is not running\<close>

text \<open>
  As long as no start frame is processed, a transport that is not running and whose stopped
  event is unset stays so, whatever else happens.
\<close>

lemma handle_audio_Inr:
  assumes "handle_audio f s = Inr s'"
  shows "\<exists>fs. s' = s\<lparr>sink_queue := sink_queue s @ fs\<rparr>"
  using assms
  by (auto simp: handle_audio_def foldl_put_nowait split: sum.splits)

lemma stop_idle: "\<not> running s \<Longrightarrow> stop s = s"
  by (simp add: stop_def)

lemma handle_interruptions_flags:
  "running (handle_interruptions f s) = running s
   \<and> stopped_event (handle_interruptions f s) = stopped_event s"
  by (simp add: handle_interruptions_def create_push_task_def)

lemma process_frame_idle:
  assumes "\<not> running s" and "\<not> stopped_event s" and "f \<noteq> StartFrame"
  shows "\<not> running (snd (process_frame f d s)) \<and> \<not> stopped_event (snd (process_frame f d s))"
proof (cases "dispatch f d s")
  case (Inl e)
  with assms show ?thesis by (simp add: process_frame_def)
next
  case (Inr s')
  have "\<not> running s' \<and> \<not> stopped_event s'"
  proof (cases f)
    case (AudioRawFrame a)
    with Inr have "handle_audio a s = Inr s'" by simp
    from handle_audio_Inr [OF this] obtain fs where "s' = s\<lparr>sink_queue := sink_queue s @ fs\<rparr>"
      by blast
    with assms show ?thesis by simp
  qed (use assms Inr in \<open>auto simp: stop_idle push_frame_def emit_def handle_interruptions_flags
         put_nowait_def\<close>)
  with Inr show ?thesis by (simp add: process_frame_def)
qed

lemma maybe_send_audio_flags:
  "maybe_send_audio c buf s = (b, s') \<Longrightarrow>
   running s' = running s \<and> stopped_event s' = stopped_event s"
  by (auto simp: maybe_send_audio_def Let_def emit_def split: if_splits option.splits)

lemma sink_write_flags:
  "sink_write c f buf s = (r, b, s') \<Longrightarrow>
   running s' = running s \<and> stopped_event s' = stopped_event s"
  by (cases f)
     (auto simp: internal_push_frame_def set_camera_image_def set_camera_images_def emit_def
        dest: maybe_send_audio_flags split: if_splits prod.splits)

lemma sink_iteration_idle:
  assumes "sink_iteration c f buf s = (b, s')" and "\<not> running s" and "\<not> stopped_event s"
  shows "\<not> running s' \<and> \<not> stopped_event s'"
proof -
  obtain r b0 s0 where
    w: "(if \<not> is_interrupted s then sink_write c f buf s else (None, [], s)) = (r, b0, s0)"
    by (metis prod_cases3)
  have "running s0 = running s \<and> stopped_event s0 = stopped_event s"
    using w sink_write_flags [of c f buf s r b0 s0] by (auto split: if_splits)
  with assms(2,3) have "\<not> running s0" "\<not> stopped_event s0" by simp_all
  with assms(1) show ?thesis
    unfolding sink_iteration_def w by (auto simp: stop_idle emit_def split: option.splits if_splits)
qed

lemma sink_thread_handler_idle:
  assumes "\<not> running s" and "\<not> stopped_event s"
  shows "\<not> running (sink_thread_handler c i s) \<and> \<not> stopped_event (sink_thread_handler c i s)"
proof (cases "length (sink_threads s) \<le> i")
  case True
  with assms show ?thesis by (simp add: sink_thread_handler_def)
next
  case False
  show ?thesis
  proof (cases "sink_pc (sink_threads s ! i)")
    case InLoopBody
    show ?thesis
    proof (cases "sink_queue s")
      case Nil
      with False InLoopBody assms show ?thesis by (simp add: sink_thread_handler_def)
    next
      case (Cons f rest)
      obtain b s' where it: "sink_iteration c f (buffer (sink_threads s ! i)) (s\<lparr>sink_queue := rest\<rparr>) = (b, s')"
        by (cases "sink_iteration c f (buffer (sink_threads s ! i)) (s\<lparr>sink_queue := rest\<rparr>)")
      from sink_iteration_idle [OF it] assms have "\<not> running s' \<and> \<not> stopped_event s'" by simp
      with False InLoopBody Cons it show ?thesis by (simp add: sink_thread_handler_def)
    qed
  qed (use False assms in \<open>simp_all add: sink_thread_handler_def\<close>)
qed

lemma draw_image_flags:
  "draw_image c f s = (r, s') \<Longrightarrow>
   running s' = running s \<and> stopped_event s' = stopped_event s"
  by (auto simp: draw_image_def Let_def call_write_frame_to_camera_def emit_def
      split: if_splits sum.splits)

lemma camera_iteration_flags:
  "camera_iteration c s = (r, s') \<Longrightarrow>
   running s' = running s \<and> stopped_event s' = stopped_event s"
  by (auto simp: camera_iteration_def split: if_splits list.splits option.splits prod.splits
      dest!: draw_image_flags)

lemma camera_out_thread_handler_flags:
  "running (camera_out_thread_handler c i s) = running s
   \<and> stopped_event (camera_out_thread_handler c i s) = stopped_event s"
proof (cases "camera_iteration c s")
  case (Pair r s')
  from camera_iteration_flags [OF Pair] Pair show ?thesis
    by (auto simp: camera_out_thread_handler_def emit_def split: pc.splits option.splits)
qed

lemma push_frame_task_handler_flags:
  "running (push_frame_task_handler k s) = running s
   \<and> stopped_event (push_frame_task_handler k s) = stopped_event s"
  by (auto simp: push_frame_task_handler_def push_frame_def emit_def split: list.splits)

lemma step_idle:
  assumes "\<not> running s" and "\<not> stopped_event s" and "\<forall>d. a \<noteq> Process StartFrame d"
  shows "\<not> running (step c s a) \<and> \<not> stopped_event (step c s a)"
proof (cases a)
  case (Process f d)
  with assms(3) have "f \<noteq> StartFrame" by auto
  with Process process_frame_idle [OF assms(1,2)] show ?thesis by simp
next
  case (SinkStep i)
  with sink_thread_handler_idle [OF assms(1,2)] show ?thesis by simp
next
  case (CameraStep i)
  with camera_out_thread_handler_flags [of c i s] assms show ?thesis by simp
next
  case (InternalPush f d)
  with assms show ?thesis by (simp add: internal_push_frame_def)
next
  case (PushStep k)
  with push_frame_task_handler_flags [of k s] assms show ?thesis by simp
qed

lemma run_idle:
  assumes "\<not> running s" and "\<not> stopped_event s" and "\<forall>d. Process StartFrame d \<notin> set acts"
  shows "\<not> running (run c s acts) \<and> \<not> stopped_event (run c s acts)"
  using assms
proof (induction acts arbitrary: s)
  case Nil
  then show ?case by (simp add: run_def)
next
  case (Cons a acts)
  from Cons.prems have "\<forall>d. a \<noteq> Process StartFrame d" by auto
  from step_idle [OF Cons.prems(1,2) this]
  have "\<not> running (step c s a)" "\<not> stopped_event (step c s a)" by simp_all
  from Cons.IH [OF this] Cons.prems(3) show ?case by (simp add: run_def)
qed


text \<open>
  C9, amended. Called while the running flag is false, \<^verbatim>\<open>stop\<close> returns without changing
  anything, the stopped event included. If the event is not already set (as before the
  first start), \<^verbatim>\<open>process_frame\<close> of a cancel frame and of an end frame are left waiting on
  it, and the event stays unset for as long as no start frame is processed.
\<close>

theorem stop_while_not_running:
  assumes "\<not> running s"
  shows "stop s = s
       \<and> (\<not> stopped_event s \<longrightarrow>
            fst (process_frame CancelFrame d s) = Waiting
          \<and> fst (process_frame EndFrame d s) = Waiting
          \<and> (\<forall>acts. (\<forall>d'. Process StartFrame d' \<notin> set acts) \<longrightarrow>
                \<not> stopped_event (run c (snd (process_frame CancelFrame d s)) acts)
              \<and> \<not> stopped_event (run c (snd (process_frame EndFrame d s)) acts)))"
proof -
  have 1: "stop s = s" using assms by (rule stop_idle)
  have 2: "fst (process_frame CancelFrame d s) = Waiting"
          "fst (process_frame EndFrame d s) = Waiting" if "\<not> stopped_event s"
    using assms that
    by (simp_all add: process_frame_def stop_idle push_frame_def emit_def put_nowait_def)
  have 3: "\<not> stopped_event (run c (snd (process_frame f d s)) acts)"
    if "\<not> stopped_event s" and "\<forall>d'. Process StartFrame d' \<notin> set acts" and "f \<noteq> StartFrame"
    for f acts
  proof -
    from process_frame_idle [OF assms that(1,3), of d]
    have "\<not> running (snd (process_frame f d s))" "\<not> stopped_event (snd (process_frame f d s))"
      by simp_all
    from run_idle [OF this that(2)] show ?thesis by simp
  qed
  from 1 2 3 show ?thesis by simp
qed

theorem stop_while_not_running_witness:
  "\<not> running (init params0 True)
   \<and> \<not> stopped_event (init params0 True)
   \<and> stop (init params0 True) = init params0 True
   \<and> fst (process_frame CancelFrame Downstream (init params0 True)) = Waiting
   \<and> fst (process_frame EndFrame Downstream (init params0 True)) = Waiting
   \<and> (\<forall>d'. Process StartFrame d' \<notin> set [Process CancelFrame Downstream, SinkStep 0, PushStep 0])
   \<and> \<not> stopped_event
         (run base_collaborators (snd (process_frame CancelFrame Downstream (init params0 True)))
            [Process CancelFrame Downstream, SinkStep 0, PushStep 0])"
proof -
  have h: "\<not> running (init params0 True)" "\<not> stopped_event (init params0 True)"
    by (simp_all add: init_def)
  have a: "\<forall>d'. Process StartFrame d' \<notin> set [Process CancelFrame Downstream, SinkStep 0, PushStep 0]"
    by simp
  from stop_while_not_running [OF h(1), of Downstream base_collaborators] h a
  show ?thesis by blast
qed

text \<open>
  The claim as stated fails after an earlier stop: once the started transport has processed
  a cancel frame, \<^verbatim>\<open>stop\<close> is called with the running flag false and returns without
  setting the event, yet the event is set and neither a cancel nor an end frame waits.
\<close>

theorem stop_while_not_running_counterexample:
  "\<not> running (run base_collaborators started [Process CancelFrame Downstream])
   \<and> stop (run base_collaborators started [Process CancelFrame Downstream])
       = run base_collaborators started [Process CancelFrame Downstream]
   \<and> stopped_event (run base_collaborators started [Process CancelFrame Downstream])
   \<and> fst (process_frame CancelFrame Downstream
            (run base_collaborators started [Process CancelFrame Downstream])) = Returned
   \<and> fst (process_frame EndFrame Downstream
            (run base_collaborators started [Process CancelFrame Downstream])) = Returned"
  by code_simp


section \<open>Interruptions and the push queue\<close>

text \<open>
  Steps that leave the push queue and the push task alone. Processing any frame but a
  start-interruption frame is one of them; a stop-interruption frame in particular only
  clears the flag.
\<close>

lemma push_idle_refl: "push_idle s s"
  by (simp add: push_idle_def)

lemma push_idle_trans: "push_idle s s' \<Longrightarrow> push_idle s' s'' \<Longrightarrow> push_idle s s''"
  by (auto simp: push_idle_def)

lemma push_idle_emit: "push_idle s (emit e s)"
  by (simp add: push_idle_def emit_def)

lemma push_idle_stop: "push_idle s (stop s)"
  by (simp add: push_idle_def stop_def)

lemma push_idle_start: "push_idle s (start s)"
  by (simp add: push_idle_def start_def Let_def)

lemma push_idle_put_nowait: "push_idle s (put_nowait f s)"
  by (simp add: push_idle_def put_nowait_def)

lemma push_idle_set_camera_image: "push_idle s (set_camera_image img s)"
  by (simp add: push_idle_def set_camera_image_def)

lemma push_idle_set_camera_images: "push_idle s (set_camera_images imgs s)"
  by (simp add: push_idle_def set_camera_images_def)

lemma push_idle_stop_interruption: "push_idle s (handle_interruptions StopInterruptionFrame s)"
  by (simp add: push_idle_def handle_interruptions_def)

lemma push_idle_process_frame:
  assumes "f \<noteq> StartInterruptionFrame"
  shows "push_idle s (snd (process_frame f d s))"
proof (cases "dispatch f d s")
  case (Inl e)
  then show ?thesis by (simp add: process_frame_def push_idle_refl)
next
  case (Inr s')
  have "push_idle s s'"
  proof (cases f)
    case StartFrame
    with Inr have "s' = emit (PushFrame StartFrame d) (start s)" by (simp add: push_frame_def)
    with push_idle_trans [OF push_idle_start push_idle_emit] show ?thesis by simp
  next
    case CancelFrame
    with Inr have "s' = emit (PushFrame CancelFrame d) (stop s)" by (simp add: push_frame_def)
    with push_idle_trans [OF push_idle_stop push_idle_emit] show ?thesis by simp
  next
    case StartInterruptionFrame
    with assms show ?thesis by simp
  next
    case StopInterruptionFrame
    with Inr have "s' = emit (PushFrame StopInterruptionFrame d)
                          (handle_interruptions StopInterruptionFrame s)"
      by (simp add: push_frame_def)
    with push_idle_trans [OF push_idle_stop_interruption push_idle_emit] show ?thesis by simp
  next
    case (SystemFrame p)
    with Inr have "s' = emit (PushFrame f d) s" by (simp add: push_frame_def)
    with push_idle_emit show ?thesis by simp
  next
    case (AudioRawFrame a)
    with Inr have "handle_audio a s = Inr s'" by simp
    from handle_audio_Inr [OF this] show ?thesis by (auto simp: push_idle_def)
  qed (use Inr push_idle_put_nowait in auto)
  with Inr show ?thesis by (simp add: process_frame_def)
qed

lemma push_idle_maybe_send_audio:
  "maybe_send_audio c buf s = (b, s') \<Longrightarrow> push_idle s s'"
  by (auto simp: maybe_send_audio_def Let_def emit_def push_idle_def
      split: if_splits option.splits)

lemma sink_write_push_queue:
  assumes "sink_write c f buf s = (r, b, s')"
  shows "push_frame_task s' = push_frame_task s
       \<and> prefix (trace s) (trace s')
       \<and> push_queue s' = push_queue s @ (if passed_on s f then [(f, Downstream)] else [])"
proof (cases f)
  case (AudioRawFrame a)
  show ?thesis
  proof (cases "audio_out_enabled (params s)")
    case True
    with AudioRawFrame assms have "maybe_send_audio c (buf @ audio a) s = (b, s')"
      by (simp split: prod.splits)
    from push_idle_maybe_send_audio [OF this] True AudioRawFrame show ?thesis
      by (simp add: push_idle_def)
  next
    case False
    with AudioRawFrame assms show ?thesis by (auto simp: internal_push_frame_def)
  qed
qed (use assms in \<open>auto simp: internal_push_frame_def set_camera_image_def
       set_camera_images_def emit_def split: if_splits\<close>)

lemma passed_on_params: "params s' = params s \<Longrightarrow> passed_on s' f = passed_on s f"
  by (cases f) simp_all

lemma sink_iteration_push_queue:
  assumes "sink_iteration c f buf s = (b, s')"
  shows "push_frame_task s' = push_frame_task s
       \<and> prefix (trace s) (trace s')
       \<and> push_queue s' = push_queue s
            @ (if \<not> is_interrupted s \<and> passed_on s f then [(f, Downstream)] else [])"
proof -
  obtain r b0 s0 where
    w: "(if \<not> is_interrupted s then sink_write c f buf s else (None, [], s)) = (r, b0, s0)"
    by (metis prod_cases3)
  have 0: "push_frame_task s0 = push_frame_task s \<and> prefix (trace s) (trace s0)
       \<and> push_queue s0 = push_queue s
            @ (if \<not> is_interrupted s \<and> passed_on s f then [(f, Downstream)] else [])"
  proof (cases "is_interrupted s")
    case True
    with w show ?thesis by simp
  next
    case False
    with w have "sink_write c f buf s = (r, b0, s0)" by simp
    from sink_write_push_queue [OF this] False show ?thesis by simp
  qed
  have "push_idle s0 s'"
    using assms unfolding sink_iteration_def w
    by (auto simp: push_idle_emit push_idle_stop push_idle_refl split: option.splits if_splits)
  with 0 show ?thesis by (auto simp: push_idle_def)
qed

lemma sink_thread_handler_push_queue:
  "push_frame_task (sink_thread_handler c i s) = push_frame_task s
   \<and> prefix (trace s) (trace (sink_thread_handler c i s))
   \<and> push_queue (sink_thread_handler c i s) = push_queue s @ put_by s (SinkStep i)"
proof (cases "i < length (sink_threads s) \<and> sink_pc (sink_threads s ! i) = InLoopBody")
  case False
  then show ?thesis
    by (auto simp: sink_thread_handler_def split: pc.splits)
next
  case True
  show ?thesis
  proof (cases "sink_queue s")
    case Nil
    with True show ?thesis by (simp add: sink_thread_handler_def)
  next
    case (Cons f rest)
    let ?s0 = "s\<lparr>sink_queue := rest\<rparr>"
    obtain b s' where it: "sink_iteration c f (buffer (sink_threads s ! i)) ?s0 = (b, s')"
      by (cases "sink_iteration c f (buffer (sink_threads s ! i)) ?s0")
    have p: "passed_on ?s0 f = passed_on s f" by (rule passed_on_params) simp
    from sink_iteration_push_queue [OF it] p
    have "push_frame_task s' = push_frame_task s" "prefix (trace s) (trace s')"
      "push_queue s' = push_queue s
            @ (if \<not> is_interrupted s \<and> passed_on s f then [(f, Downstream)] else [])"
      by simp_all
    with True Cons it show ?thesis by (simp add: sink_thread_handler_def)
  qed
qed

lemma push_idle_draw_image: "draw_image c f s = (r, s') \<Longrightarrow> push_idle s s'"
  by (auto simp: draw_image_def Let_def call_write_frame_to_camera_def emit_def push_idle_def
      split: if_splits sum.splits)

lemma push_idle_camera_iteration:
  assumes "camera_iteration c s = (r, s')"
  shows "push_idle s s'"
proof -
  have k: "push_idle s (s\<lparr>camera_out_queue := q\<rparr>)" "push_idle s (s\<lparr>camera_images := ci\<rparr>)"
    for q ci
    by (simp_all add: push_idle_def)
  from assms show ?thesis
    by (auto simp: camera_iteration_def push_idle_refl
        split: if_splits list.splits option.splits prod.splits
        dest!: push_idle_draw_image intro: push_idle_trans [OF k(1)] push_idle_trans [OF k(2)])
qed

lemma push_idle_camera_out_thread_handler: "push_idle s (camera_out_thread_handler c i s)"
proof (cases "camera_iteration c s")
  case (Pair r s')
  from push_idle_camera_iteration [OF Pair] Pair show ?thesis
    by (auto simp: camera_out_thread_handler_def emit_def push_idle_def
        split: pc.splits option.splits)
qed

text \<open>
  Every step but the processing of a start-interruption frame keeps the push task and
  either appends to the push queue what \<open>put_by\<close> says, or is the live push task taking
  the head of the queue and emitting it. Over a schedule of such steps the items emitted by
  the task, followed by the items still queued, are the items queued at the beginning
  followed by the items put since; and the live task empties the queue when it is resumed
  often enough.
\<close>

lemma step_push_queue:
  assumes "\<forall>d. a \<noteq> Process StartInterruptionFrame d"
  shows "push_frame_task (step c s a) = push_frame_task s
       \<and> (\<exists>new. trace (step c s a) = trace s @ new
            \<and> (push_queue (step c s a) = push_queue s @ put_by s a
               \<or> (\<exists>f d. push_queue s = (f, d) # push_queue (step c s a)
                         \<and> new = [PushFrame f d] \<and> put_by s a = [])))"
proof (cases a)
  case (Process f d)
  with assms have "f \<noteq> StartInterruptionFrame" by auto
  from push_idle_process_frame [OF this, of s d] Process show ?thesis
    by (auto simp: push_idle_def prefix_def)
next
  case (SinkStep i)
  with sink_thread_handler_push_queue [of c i s] show ?thesis
    by (auto simp: prefix_def)
next
  case (CameraStep i)
  with push_idle_camera_out_thread_handler [of s c i] show ?thesis
    by (auto simp: push_idle_def prefix_def)
next
  case (InternalPush f d)
  then show ?thesis by (simp add: internal_push_frame_def)
next
  case (PushStep k)
  show ?thesis
  proof (cases "k = push_frame_task s \<and> push_queue s \<noteq> []")
    case False
    with PushStep have "step c s a = s"
      by (auto simp: push_frame_task_handler_def split: list.splits)
    with PushStep show ?thesis by simp
  next
    case True
    then obtain f d rest where pq: "push_queue s = (f, d) # rest"
      by (cases "push_queue s") auto
    with True PushStep have "step c s a = push_frame f d (s\<lparr>push_queue := rest\<rparr>)"
      by (simp add: push_frame_task_handler_def)
    with pq PushStep show ?thesis by (simp add: push_frame_def emit_def)
  qed
qed

lemma run_push_fifo:
  assumes "\<forall>d. Process StartInterruptionFrame d \<notin> set acts"
  shows "push_frame_task (run c s acts) = push_frame_task s
       \<and> (\<exists>delivered new.
             trace (run c s acts) = trace s @ new
           \<and> subseq (map (\<lambda>(f, d). PushFrame f d) delivered) new
           \<and> delivered @ push_queue (run c s acts) = push_queue s @ puts c s acts)"
  using assms
proof (induction acts arbitrary: s)
  case Nil
  show ?case by (simp add: run_def)
next
  case (Cons a acts)
  from Cons.prems have rest: "\<forall>d. Process StartInterruptionFrame d \<notin> set acts"
    and a: "\<forall>d. a \<noteq> Process StartInterruptionFrame d"
    by auto
  let ?s' = "step c s a"
  have r: "run c s (a # acts) = run c ?s' acts" by (simp add: run_def)
  from Cons.IH [OF rest, of ?s'] obtain del new' where
    k: "push_frame_task (run c ?s' acts) = push_frame_task ?s'"
    and t: "trace (run c ?s' acts) = trace ?s' @ new'"
    and e: "subseq (map (\<lambda>(f, d). PushFrame f d) del) new'"
    and q: "del @ push_queue (run c ?s' acts) = push_queue ?s' @ puts c ?s' acts"
    by blast
  from step_push_queue [OF a, of c s] obtain new where
    k0: "push_frame_task ?s' = push_frame_task s"
    and t0: "trace ?s' = trace s @ new"
    and c0: "push_queue ?s' = push_queue s @ put_by s a
             \<or> (\<exists>f d. push_queue s = (f, d) # push_queue ?s'
                       \<and> new = [PushFrame f d] \<and> put_by s a = [])"
    by blast
  from c0 have "\<exists>delivered new.
             trace (run c s (a # acts)) = trace s @ new
           \<and> subseq (map (\<lambda>(f, d). PushFrame f d) delivered) new
           \<and> delivered @ push_queue (run c s (a # acts)) = push_queue s @ puts c s (a # acts)"
  proof
    assume p: "push_queue ?s' = push_queue s @ put_by s a"
    have "trace (run c s (a # acts)) = trace s @ (new @ new')"
      unfolding r by (simp add: t t0)
    moreover have "subseq (map (\<lambda>(f, d). PushFrame f d) del) (new @ new')"
      using e by (rule list_emb_append2)
    moreover have "del @ push_queue (run c s (a # acts)) = push_queue s @ puts c s (a # acts)"
      unfolding r using q p by simp
    ultimately show ?thesis by blast
  next
    assume "\<exists>f d. push_queue s = (f, d) # push_queue ?s' \<and> new = [PushFrame f d] \<and> put_by s a = []"
    then obtain f d where p: "push_queue s = (f, d) # push_queue ?s'"
      and n: "new = [PushFrame f d]" and b: "put_by s a = []"
      by blast
    have "trace (run c s (a # acts)) = trace s @ (PushFrame f d # new')"
      unfolding r by (simp add: t t0 n)
    moreover have "subseq (map (\<lambda>(f, d). PushFrame f d) ((f, d) # del)) (PushFrame f d # new')"
      using e by simp
    moreover have "((f, d) # del) @ push_queue (run c s (a # acts))
                     = push_queue s @ puts c s (a # acts)"
      unfolding r using q p b by simp
    ultimately show ?thesis by blast
  qed
  with k k0 show ?case unfolding r by simp
qed

lemma push_drain:
  assumes "length (push_queue s) \<le> n"
  shows "trace (run c s (replicate n (PushStep (push_frame_task s))))
           = trace s @ map (\<lambda>(f, d). PushFrame f d) (push_queue s)
       \<and> push_queue (run c s (replicate n (PushStep (push_frame_task s)))) = []"
  using assms
proof (induction n arbitrary: s)
  case 0
  then show ?case by (simp add: run_def)
next
  case (Suc n)
  show ?case
  proof (cases "push_queue s")
    case Nil
    then have "step c s (PushStep (push_frame_task s)) = s"
      by (simp add: push_frame_task_handler_def)
    with Suc.IH [of s] Nil show ?thesis by (simp add: run_def)
  next
    case (Cons x rest')
    obtain f d where x: "x = (f, d)" by (cases x)
    let ?s' = "push_frame f d (s\<lparr>push_queue := rest'\<rparr>)"
    from Cons x have st: "step c s (PushStep (push_frame_task s)) = ?s'"
      by (simp add: push_frame_task_handler_def)
    have k: "push_frame_task ?s' = push_frame_task s" and q: "push_queue ?s' = rest'"
      and t: "trace ?s' = trace s @ [PushFrame f d]"
      by (simp_all add: push_frame_def emit_def)
    from Suc.prems Cons have "length (push_queue ?s') \<le> n" by (simp add: q)
    from Suc.IH [OF this] show ?thesis
      unfolding k q t using st Cons x by (simp add: run_def)
  qed
qed

lemma run_append: "run c s (xs @ ys) = run c (run c s xs) ys"
  by (simp add: run_def)

text \<open>
  C1. With interruptions allowed, processing a start-interruption frame leaves an empty
  push queue owned by a new push task and sets the interrupted flag; the cancelled task
  emits nothing when it is resumed; and the state after the frame is the one reached from
  an empty push queue, so no later step of any kind can depend on, or emit, an item that
  was pending. Afterwards, under every schedule of frames processed and of steps of the
  workers and the push tasks in which no further start-interruption frame is processed,
  the new task stays the live one, and the items it has emitted, followed by the items
  still queued, are exactly the items put on the queue since the interruption (by the sink
  worker passing on a frame while not interrupted, or by another caller), in the order they
  were put, the emitted ones appearing in that order among the effects; and once the new
  task has been resumed as often as there are items queued, all of them have been emitted,
  in that order, and the queue is empty.
\<close>

theorem interruption_drops_pending:
  assumes "interruptions_allowed s"
  shows "push_queue (handle_interruptions StartInterruptionFrame s) = []
       \<and> is_interrupted (handle_interruptions StartInterruptionFrame s)
       \<and> push_frame_task (handle_interruptions StartInterruptionFrame s) = Suc (push_frame_task s)
       \<and> push_frame_task_handler (push_frame_task s) (handle_interruptions StartInterruptionFrame s)
           = handle_interruptions StartInterruptionFrame s
       \<and> process_frame StartInterruptionFrame d s
           = process_frame StartInterruptionFrame d (s\<lparr>push_queue := []\<rparr>)
       \<and> (\<forall>acts. (\<forall>d'. Process StartInterruptionFrame d' \<notin> set acts) \<longrightarrow>
            push_frame_task (run c (snd (process_frame StartInterruptionFrame d s)) acts)
              = Suc (push_frame_task s)
          \<and> (\<exists>delivered new.
               trace (run c (snd (process_frame StartInterruptionFrame d s)) acts)
                 = trace (snd (process_frame StartInterruptionFrame d s)) @ new
             \<and> subseq (map (\<lambda>(f, d'). PushFrame f d') delivered) new
             \<and> delivered @ push_queue (run c (snd (process_frame StartInterruptionFrame d s)) acts)
                 = puts c (snd (process_frame StartInterruptionFrame d s)) acts)
          \<and> (\<forall>n. length (push_queue (run c (snd (process_frame StartInterruptionFrame d s)) acts))
                    \<le> n \<longrightarrow>
               trace (run c (snd (process_frame StartInterruptionFrame d s))
                        (acts @ replicate n (PushStep (Suc (push_frame_task s)))))
                 = trace (run c (snd (process_frame StartInterruptionFrame d s)) acts)
                   @ map (\<lambda>(f, d'). PushFrame f d')
                       (push_queue (run c (snd (process_frame StartInterruptionFrame d s)) acts))
             \<and> push_queue (run c (snd (process_frame StartInterruptionFrame d s))
                        (acts @ replicate n (PushStep (Suc (push_frame_task s))))) = []))"
proof -
  let ?h = "handle_interruptions StartInterruptionFrame s"
  let ?s1 = "snd (process_frame StartInterruptionFrame d s)"
  have h: "?h = s\<lparr>is_interrupted := True, push_frame_task := Suc (push_frame_task s), push_queue := []\<rparr>"
    using assms by (simp add: handle_interruptions_def create_push_task_def)
  have s1: "?s1 = push_frame StartInterruptionFrame d ?h"
    by (simp add: process_frame_def)
  have q1: "push_queue ?s1 = []" and k1: "push_frame_task ?s1 = Suc (push_frame_task s)"
    unfolding s1 h by (simp_all add: push_frame_def emit_def)
  have 1: "push_queue ?h = []" "is_interrupted ?h" "push_frame_task ?h = Suc (push_frame_task s)"
    unfolding h by simp_all
  have 2: "push_frame_task_handler (push_frame_task s) ?h = ?h"
    unfolding h by (simp add: push_frame_task_handler_def)
  have 3: "process_frame StartInterruptionFrame d s
             = process_frame StartInterruptionFrame d (s\<lparr>push_queue := []\<rparr>)"
    using assms
    by (simp add: process_frame_def handle_interruptions_def create_push_task_def push_frame_def
        emit_def)
  have 4: "push_frame_task (run c ?s1 acts) = Suc (push_frame_task s)"
    if "\<forall>d'. Process StartInterruptionFrame d' \<notin> set acts" for acts
    using run_push_fifo [OF that, of c ?s1] by (simp add: k1)
  have 5: "\<exists>delivered new.
               trace (run c ?s1 acts) = trace ?s1 @ new
             \<and> subseq (map (\<lambda>(f, d'). PushFrame f d') delivered) new
             \<and> delivered @ push_queue (run c ?s1 acts) = puts c ?s1 acts"
    if "\<forall>d'. Process StartInterruptionFrame d' \<notin> set acts" for acts
  proof -
    from run_push_fifo [OF that, of c ?s1] obtain del new where
      "trace (run c ?s1 acts) = trace ?s1 @ new"
      "subseq (map (\<lambda>(f, d'). PushFrame f d') del) new"
      "del @ push_queue (run c ?s1 acts) = puts c ?s1 acts"
      by (auto simp: q1)
    then show ?thesis by blast
  qed
  have 6: "trace (run c ?s1 (acts @ replicate n (PushStep (Suc (push_frame_task s)))))
             = trace (run c ?s1 acts)
               @ map (\<lambda>(f, d'). PushFrame f d') (push_queue (run c ?s1 acts))
           \<and> push_queue (run c ?s1 (acts @ replicate n (PushStep (Suc (push_frame_task s))))) = []"
    if a: "\<forall>d'. Process StartInterruptionFrame d' \<notin> set acts"
      and n: "length (push_queue (run c ?s1 acts)) \<le> n" for acts n
    using push_drain [OF n, of c] by (simp add: 4 [OF a] run_append)
  from 1 2 3 4 5 6 show ?thesis by blast
qed



text \<open>
  Two items pending at the interruption are never emitted. After the stop-interruption
  frame the sink worker passes on a frame, which the new task emits; a frame put
  afterwards follows it; a resumption of the cancelled task in between changes nothing.
\<close>

theorem interruption_drops_pending_witness:
  "interruptions_allowed
     (run base_collaborators started
        [InternalPush (DataFrame ''a'') Downstream, InternalPush (DataFrame ''b'') Downstream])
   \<and> push_queue
       (run base_collaborators started
          [InternalPush (DataFrame ''a'') Downstream, InternalPush (DataFrame ''b'') Downstream])
       = [(DataFrame ''a'', Downstream), (DataFrame ''b'', Downstream)]
   \<and> (\<forall>d'. Process StartInterruptionFrame d'
              \<notin> set [Process StopInterruptionFrame Downstream,
                      Process (DataFrame ''c'') Downstream, SinkStep 0, PushStep 0, PushStep 1,
                      InternalPush (DataFrame ''d'') Downstream])
   \<and> puts base_collaborators
        (snd (process_frame StartInterruptionFrame Downstream
           (run base_collaborators started
              [InternalPush (DataFrame ''a'') Downstream,
               InternalPush (DataFrame ''b'') Downstream])))
        [Process StopInterruptionFrame Downstream,
         Process (DataFrame ''c'') Downstream, SinkStep 0, PushStep 0, PushStep 1,
         InternalPush (DataFrame ''d'') Downstream]
       = [(DataFrame ''c'', Downstream), (DataFrame ''d'', Downstream)]
   \<and> trace (run base_collaborators
              (snd (process_frame StartInterruptionFrame Downstream
                 (run base_collaborators started
                    [InternalPush (DataFrame ''a'') Downstream,
                     InternalPush (DataFrame ''b'') Downstream])))
              ([Process StopInterruptionFrame Downstream,
                Process (DataFrame ''c'') Downstream, SinkStep 0, PushStep 0, PushStep 1,
                InternalPush (DataFrame ''d'') Downstream]
               @ replicate 1 (PushStep (Suc 0))))
       = [PushFrame StartFrame Downstream, PushFrame StartInterruptionFrame Downstream,
          PushFrame StopInterruptionFrame Downstream,
          PushFrame (DataFrame ''c'') Downstream, PushFrame (DataFrame ''d'') Downstream]"
proof -
  let ?s = "run base_collaborators started
              [InternalPush (DataFrame ''a'') Downstream, InternalPush (DataFrame ''b'') Downstream]"
  let ?s1 = "snd (process_frame StartInterruptionFrame Downstream ?s)"
  let ?acts = "[Process StopInterruptionFrame Downstream,
                Process (DataFrame ''c'') Downstream, SinkStep 0, PushStep 0, PushStep 1,
                InternalPush (DataFrame ''d'') Downstream]"
  have h: "interruptions_allowed ?s" by code_simp
  have q: "push_queue ?s = [(DataFrame ''a'', Downstream), (DataFrame ''b'', Downstream)]"
    by code_simp
  have a: "\<forall>d'. Process StartInterruptionFrame d' \<notin> set ?acts" by simp
  have p: "puts base_collaborators ?s1 ?acts
             = [(DataFrame ''c'', Downstream), (DataFrame ''d'', Downstream)]"
    by code_simp
  have k: "push_frame_task ?s = 0" by code_simp
  have n: "length (push_queue (run base_collaborators ?s1 ?acts)) \<le> 1" by code_simp
  have t: "trace (run base_collaborators ?s1 ?acts)
             @ map (\<lambda>(f, d'). PushFrame f d') (push_queue (run base_collaborators ?s1 ?acts))
           = [PushFrame StartFrame Downstream, PushFrame StartInterruptionFrame Downstream,
              PushFrame StopInterruptionFrame Downstream,
              PushFrame (DataFrame ''c'') Downstream, PushFrame (DataFrame ''d'') Downstream]"
    by code_simp
  from interruption_drops_pending [OF h, of Downstream base_collaborators] a n
  have "trace (run base_collaborators ?s1 (?acts @ replicate 1 (PushStep (Suc (push_frame_task ?s)))))
          = trace (run base_collaborators ?s1 ?acts)
            @ map (\<lambda>(f, d'). PushFrame f d') (push_queue (run base_collaborators ?s1 ?acts))"
    by blast
  then have "trace (run base_collaborators ?s1 (?acts @ replicate 1 (PushStep (Suc 0))))
          = [PushFrame StartFrame Downstream, PushFrame StartInterruptionFrame Downstream,
              PushFrame StopInterruptionFrame Downstream,
              PushFrame (DataFrame ''c'') Downstream, PushFrame (DataFrame ''d'') Downstream]"
    unfolding k t .
  with h q a p show ?thesis by blast
qed


section \<open>Shutdown\<close>

text \<open>
  \<^verbatim>\<open>stop\<close> sets the stopped event in the same step that clears the running flag, so a
  cancel frame on a running transport never waits, and no worker is looked at.
\<close>

lemma stop_sets_event_at_once:
  "running s \<Longrightarrow>
   process_frame CancelFrame d s
     = (Returned, (push_frame CancelFrame d s)\<lparr>running := False, stopped_event := True\<rparr>)"
  by (simp add: process_frame_def stop_def push_frame_def emit_def)


text \<open>
  For an end frame the sink worker calls \<^verbatim>\<open>stop\<close> from inside its loop body. On the
  sample transport this sets the event while the sink worker is still at its loop test and
  the camera worker inside its loop, which then writes a queued image to the camera.
\<close>

lemma end_frame_sets_event_while_workers_run:
  "fst (process_frame EndFrame Downstream
          (run base_collaborators started
             [Process (ImageRawFrame (image0 (2, 2))) Downstream, SinkStep 0, SinkStep 0]))
     = Waiting
   \<and> stopped_event
       (run base_collaborators started
          [Process (ImageRawFrame (image0 (2, 2))) Downstream, SinkStep 0, SinkStep 0,
           Process EndFrame Downstream, SinkStep 0])
   \<and> sink_threads
       (run base_collaborators started
          [Process (ImageRawFrame (image0 (2, 2))) Downstream, SinkStep 0, SinkStep 0,
           Process EndFrame Downstream, SinkStep 0])
       = [\<lparr>sink_pc = AtLoopTest, buffer = []\<rparr>]
   \<and> camera_threads
       (run base_collaborators started
          [Process (ImageRawFrame (image0 (2, 2))) Downstream, SinkStep 0, SinkStep 0,
           Process EndFrame Downstream, SinkStep 0])
       = [InLoopBody]
   \<and> trace
       (run base_collaborators started
          [Process (ImageRawFrame (image0 (2, 2))) Downstream, SinkStep 0, SinkStep 0,
           Process EndFrame Downstream, SinkStep 0, CameraStep 0])
       = [PushFrame StartFrame Downstream, WriteFrameToCamera (image0 (2, 2))]"
  by code_simp

text \<open>
  C5 does not hold of the code. On the started sample transport with one chunk of audio in
  the sink queue, \<^verbatim>\<open>process_frame\<close> of a cancel frame returns with the stopped event set
  while the sink worker and the camera worker are still inside their loops; the sink worker
  then takes the chunk and writes it to the audio sink.
\<close>

theorem cancel_returns_while_workers_run:
  "fst (process_frame CancelFrame Downstream
          (run base_collaborators started [Process (AudioRawFrame (audio0 [1, 2])) Downstream]))
     = Returned
   \<and> stopped_event
       (run base_collaborators started
          [Process (AudioRawFrame (audio0 [1, 2])) Downstream, Process CancelFrame Downstream])
   \<and> sink_threads
       (run base_collaborators started
          [Process (AudioRawFrame (audio0 [1, 2])) Downstream, Process CancelFrame Downstream])
       = [\<lparr>sink_pc = InLoopBody, buffer = []\<rparr>]
   \<and> camera_threads
       (run base_collaborators started
          [Process (AudioRawFrame (audio0 [1, 2])) Downstream, Process CancelFrame Downstream])
       = [InLoopBody]
   \<and> trace
       (run base_collaborators started
          [Process (AudioRawFrame (audio0 [1, 2])) Downstream, Process CancelFrame Downstream])
       = [PushFrame StartFrame Downstream, PushFrame CancelFrame Downstream]
   \<and> trace
       (run base_collaborators started
          [Process (AudioRawFrame (audio0 [1, 2])) Downstream, Process CancelFrame Downstream,
           SinkStep 0])
       = [PushFrame StartFrame Downstream, PushFrame CancelFrame Downstream,
          WriteRawAudioFrames [1, 2]]"
  by code_simp



section \<open>The accumulation buffer over whole executions\<close>

text \<open>
  Steps that leave the chunk size, the sink workers and the sink queue alone and only add
  effects.
\<close>

lemma keeps_refl: "keeps s s"
  by (simp add: keeps_def)

lemma keeps_trans: "keeps s s' \<Longrightarrow> keeps s' s'' \<Longrightarrow> keeps s s''"
  by (auto simp: keeps_def)

lemma keeps_emit: "keeps s (emit e s)"
  by (auto simp: keeps_def emit_def)

lemma keeps_internal_push_frame: "keeps s (internal_push_frame f d s)"
  by (simp add: keeps_def internal_push_frame_def)

lemma keeps_stop: "keeps s (stop s)"
  by (simp add: keeps_def stop_def)

lemma keeps_handle_interruptions: "keeps s (handle_interruptions f s)"
  by (simp add: keeps_def handle_interruptions_def create_push_task_def)

lemma keeps_set_camera_image: "keeps s (set_camera_image img s)"
  by (simp add: keeps_def set_camera_image_def)

lemma keeps_set_camera_images: "keeps s (set_camera_images imgs s)"
  by (simp add: keeps_def set_camera_images_def)

lemma keeps_push_frame_task_handler: "keeps s (push_frame_task_handler k s)"
  by (auto simp: keeps_def push_frame_task_handler_def push_frame_def emit_def split: list.splits)

lemma keeps_draw_image: "draw_image c f s = (r, s') \<Longrightarrow> keeps s s'"
  by (auto simp: draw_image_def Let_def call_write_frame_to_camera_def emit_def keeps_def
      split: if_splits sum.splits)

lemma keeps_camera_iteration:
  assumes "camera_iteration c s = (r, s')"
  shows "keeps s s'"
proof -
  have k: "keeps s (s\<lparr>camera_out_queue := q\<rparr>)" "keeps s (s\<lparr>camera_images := ci\<rparr>)" for q ci
    by (simp_all add: keeps_def)
  from assms show ?thesis
    by (auto simp: camera_iteration_def keeps_refl
        split: if_splits list.splits option.splits prod.splits
        dest!: keeps_draw_image intro: keeps_trans [OF k(1)] keeps_trans [OF k(2)])
qed

lemma keeps_camera_out_thread_handler: "keeps s (camera_out_thread_handler c i s)"
proof (cases "camera_iteration c s")
  case (Pair r s')
  from keeps_camera_iteration [OF Pair] Pair show ?thesis
    by (auto simp: camera_out_thread_handler_def emit_def keeps_def split: pc.splits option.splits)
qed

lemma maybe_send_audio_keeps:
  assumes "maybe_send_audio c buf s = (b, s')"
  shows "keeps s s'"
  using assms
  by (auto simp: maybe_send_audio_def Let_def emit_def keeps_def split: if_splits option.splits)

lemma maybe_send_audio_below_chunk:
  assumes "maybe_send_audio c buf s = (b, s')"
    and "0 < audio_chunk_size s"
    and "int (length buf) < 2 * audio_chunk_size s"
    and "no_audio_failure s'"
  shows "int (length b) < audio_chunk_size s"
proof (cases "length buf < nat (audio_chunk_size s)")
  case True
  with assms(1,2) show ?thesis by (simp add: maybe_send_audio_pos)
next
  case False
  show ?thesis
  proof (cases "write_raw_audio_frames c (take (nat (audio_chunk_size s)) buf)")
    case None
    with False assms(1,2) have "b = drop (nat (audio_chunk_size s)) buf"
      by (simp add: maybe_send_audio_pos)
    with assms(2,3) show ?thesis by simp
  next
    case (Some e)
    with False assms(1,2) have "Log ErrorWritingAudioFrames \<in> set (trace s')"
      by (auto simp: maybe_send_audio_pos emit_def)
    with assms(4) show ?thesis by (simp add: no_audio_failure_def)
  qed
qed

text \<open>
  One loop body of the sink worker: with a buffer below a chunk and a frame of at most a
  chunk, the buffer is below a chunk again unless the write has raised.
\<close>

lemma no_audio_failure_keeps: "keeps s s' \<Longrightarrow> no_audio_failure s' \<Longrightarrow> no_audio_failure s"
  by (auto simp: keeps_def no_audio_failure_def)

lemma sink_write_keeps:
  assumes "sink_write c f buf s = (r, b, s')"
  shows "keeps s s'"
  using assms
  by (cases f)
     (auto simp: keeps_internal_push_frame keeps_set_camera_image keeps_set_camera_images
        keeps_emit dest: maybe_send_audio_keeps split: if_splits prod.splits)

lemma sink_write_below_chunk:
  assumes "sink_write c f buf s = (r, b, s')"
    and "0 < audio_chunk_size s"
    and "int (length buf) < audio_chunk_size s"
    and "\<And>a. f = AudioRawFrame a \<Longrightarrow> int (length (audio a)) \<le> audio_chunk_size s"
    and "no_audio_failure s'"
  shows "int (length b) < audio_chunk_size s"
proof (cases f)
  case (AudioRawFrame a)
  show ?thesis
  proof (cases "audio_out_enabled (params s)")
    case True
    with AudioRawFrame assms(1) have m: "maybe_send_audio c (buf @ audio a) s = (b, s')"
      by (simp split: prod.splits)
    from assms(3) assms(4) [OF AudioRawFrame]
    have "int (length (buf @ audio a)) < 2 * audio_chunk_size s" by simp
    from maybe_send_audio_below_chunk [OF m assms(2) this assms(5)] show ?thesis .
  next
    case False
    with AudioRawFrame assms(1,3) show ?thesis by simp
  qed
qed (use assms(1,3) in \<open>auto split: if_splits\<close>)

lemma sink_iteration_keeps:
  assumes "sink_iteration c f buf s = (b, s')"
  shows "keeps s s'"
proof -
  obtain r b0 s0 where
    w: "(if \<not> is_interrupted s then sink_write c f buf s else (None, [], s)) = (r, b0, s0)"
    by (metis prod_cases3)
  have "keeps s s0"
    using w sink_write_keeps [of c f buf s r b0 s0] by (auto simp: keeps_refl split: if_splits)
  moreover have "keeps s0 s'"
    using assms unfolding sink_iteration_def w
    by (auto simp: keeps_emit keeps_stop keeps_refl split: option.splits if_splits)
  ultimately show ?thesis by (rule keeps_trans)
qed

lemma sink_iteration_below_chunk:
  assumes "sink_iteration c f buf s = (b, s')"
    and "0 < audio_chunk_size s"
    and "int (length buf) < audio_chunk_size s"
    and "\<And>a. f = AudioRawFrame a \<Longrightarrow> int (length (audio a)) \<le> audio_chunk_size s"
    and "no_audio_failure s'"
  shows "int (length b) < audio_chunk_size s"
proof (cases "is_interrupted s")
  case True
  with assms(1,2) show ?thesis
    by (auto simp: sink_iteration_def split: if_splits)
next
  case False
  obtain r b0 s0 where w: "sink_write c f buf s = (r, b0, s0)"
    by (metis prod_cases3)
  from assms(1) False w have b: "b = b0" and k: "keeps s0 s'"
    by (auto simp: sink_iteration_def keeps_emit keeps_stop keeps_refl
        split: option.splits if_splits)
  from no_audio_failure_keeps [OF k assms(5)] have "no_audio_failure s0" .
  from sink_write_below_chunk [OF w assms(2,3,4) this] b show ?thesis by simp
qed

lemma list_all_update:
  "list_all P xs \<Longrightarrow> P x \<Longrightarrow> list_all P (xs[i := x])"
  using set_update_subset_insert [of xs i x] by (auto simp: list_all_iff)

lemma inv_keeps:
  assumes "keeps s s'" and "0 < audio_chunk_size s" and "chunked_queue s"
    and "no_audio_failure s \<longrightarrow> buffers_below_chunk s"
  shows "0 < audio_chunk_size s' \<and> chunked_queue s'
         \<and> (no_audio_failure s' \<longrightarrow> buffers_below_chunk s')"
proof -
  from assms(1) have e: "audio_chunk_size s' = audio_chunk_size s" "sink_threads s' = sink_threads s"
    "sink_queue s' = sink_queue s"
    by (simp_all add: keeps_def)
  from e assms(2,3) have "0 < audio_chunk_size s'" "chunked_queue s'"
    by (simp_all add: chunked_queue_def)
  moreover have "buffers_below_chunk s'" if "no_audio_failure s'"
    using no_audio_failure_keeps [OF assms(1) that] assms(4) e
    by (simp add: buffers_below_chunk_def)
  ultimately show ?thesis by blast
qed

lemma inv_sink_thread_handler:
  assumes "0 < audio_chunk_size s" and "chunked_queue s"
    and "no_audio_failure s \<longrightarrow> buffers_below_chunk s"
  shows "0 < audio_chunk_size (sink_thread_handler c i s)
       \<and> chunked_queue (sink_thread_handler c i s)
       \<and> (no_audio_failure (sink_thread_handler c i s)
            \<longrightarrow> buffers_below_chunk (sink_thread_handler c i s))"
proof (cases "length (sink_threads s) \<le> i")
  case True
  with assms show ?thesis by (simp add: sink_thread_handler_def)
next
  case False
  then have i: "i < length (sink_threads s)" by simp
  have pc_only: "0 < audio_chunk_size s1 \<and> chunked_queue s1
       \<and> (no_audio_failure s1 \<longrightarrow> buffers_below_chunk s1)"
    if "s1 = s\<lparr>sink_threads := (sink_threads s)[i := (sink_threads s ! i)\<lparr>sink_pc := p\<rparr>]\<rparr>" for s1 p
  proof -
    have "buffers_below_chunk s1" if "buffers_below_chunk s"
      using that i \<open>s1 = _\<close>
      by (auto simp: buffers_below_chunk_def list_all_length nth_list_update)
    with assms that show ?thesis by (simp add: chunked_queue_def no_audio_failure_def)
  qed
  show ?thesis
  proof (cases "sink_pc (sink_threads s ! i)")
    case AtLoopTest
    with False pc_only show ?thesis by (simp add: sink_thread_handler_def)
  next
    case Exited
    with False assms show ?thesis by (simp add: sink_thread_handler_def)
  next
    case InLoopBody
    show ?thesis
    proof (cases "sink_queue s")
      case Nil
      with False InLoopBody pc_only show ?thesis by (simp add: sink_thread_handler_def)
    next
      case (Cons f rest)
      let ?s0 = "s\<lparr>sink_queue := rest\<rparr>"
      let ?buf = "buffer (sink_threads s ! i)"
      obtain b s' where it: "sink_iteration c f ?buf ?s0 = (b, s')"
        by (cases "sink_iteration c f ?buf ?s0")
      from sink_iteration_keeps [OF it] have k: "keeps ?s0 s'" .
      then have e: "audio_chunk_size s' = audio_chunk_size s" "sink_threads s' = sink_threads s"
        "sink_queue s' = rest" and tr: "set (trace s) \<subseteq> set (trace s')"
        by (simp_all add: keeps_def)
      let ?r = "s'\<lparr>sink_threads := (sink_threads s')[i := \<lparr>sink_pc = AtLoopTest, buffer = b\<rparr>]\<rparr>"
      from False InLoopBody Cons it have r: "sink_thread_handler c i s = ?r"
        by (simp add: sink_thread_handler_def)
      from assms(2) Cons have f: "int (length (audio a)) \<le> audio_chunk_size s" if "f = AudioRawFrame a" for a
        using that by (simp add: chunked_queue_def)
      from assms(2) Cons e have cq: "chunked_queue ?r"
        by (simp add: chunked_queue_def)
      have "buffers_below_chunk ?r" if nf: "no_audio_failure ?r"
      proof -
        from nf have nf': "no_audio_failure s'" by (simp add: no_audio_failure_def)
        with tr have "no_audio_failure s" by (auto simp: no_audio_failure_def)
        with assms(3) have bb: "buffers_below_chunk s" by simp
        with i have "int (length ?buf) < audio_chunk_size s"
          by (simp add: buffers_below_chunk_def list_all_length)
        from sink_iteration_below_chunk [OF it _ _ _ nf'] assms(1) this f
        have "int (length b) < audio_chunk_size s" by simp
        with bb e show ?thesis
          by (simp add: buffers_below_chunk_def list_all_update)
      qed
      with cq assms(1) e show ?thesis unfolding r by simp
    qed
  qed
qed

text \<open>
  The chunk size is positive, no audio frame in the sink queue is longer than a chunk and,
  unless a write has raised, every buffer is below a chunk: this is kept by every step.
\<close>

lemma inv_start:
  assumes "0 < audio_chunk_size s" and "chunked_queue s"
    and "no_audio_failure s \<longrightarrow> buffers_below_chunk s"
  shows "0 < audio_chunk_size (start s) \<and> chunked_queue (start s)
       \<and> (no_audio_failure (start s) \<longrightarrow> buffers_below_chunk (start s))"
  using assms
  by (auto simp: start_def Let_def chunked_queue_def buffers_below_chunk_def no_audio_failure_def)

lemma inv_handle_audio:
  assumes "handle_audio a s = Inr s'" and "0 < audio_chunk_size s" and "chunked_queue s"
    and "no_audio_failure s \<longrightarrow> buffers_below_chunk s"
  shows "0 < audio_chunk_size s' \<and> chunked_queue s'
       \<and> (no_audio_failure s' \<longrightarrow> buffers_below_chunk s')"
proof -
  from assms(1) handle_audio_eq [OF assms(2), of a]
  have s': "s' = s\<lparr>sink_queue := sink_queue s @
                  map (\<lambda>k. AudioRawFrame
                         \<lparr>audio = take (nat (audio_chunk_size s))
                                    (drop (k * nat (audio_chunk_size s)) (audio a)),
                          sample_rate = sample_rate a, num_channels = num_channels a\<rparr>)
                      [0..<range_length 0 (int (length (audio a))) (audio_chunk_size s)]\<rparr>"
    by simp
  from assms(2,3) have "chunked_queue s'"
    unfolding s' by (auto simp: chunked_queue_def list_all_iff)
  with assms(2,4) show ?thesis
    unfolding s' by (simp add: buffers_below_chunk_def no_audio_failure_def)
qed

lemma inv_put_nowait:
  assumes "within_chunk (audio_chunk_size s) f" and "0 < audio_chunk_size s" and "chunked_queue s"
    and "no_audio_failure s \<longrightarrow> buffers_below_chunk s"
  shows "0 < audio_chunk_size (put_nowait f s) \<and> chunked_queue (put_nowait f s)
       \<and> (no_audio_failure (put_nowait f s) \<longrightarrow> buffers_below_chunk (put_nowait f s))"
  using assms
  by (simp add: put_nowait_def chunked_queue_def buffers_below_chunk_def no_audio_failure_def)

lemma inv_process_frame:
  assumes "0 < audio_chunk_size s" and "chunked_queue s"
    and "no_audio_failure s \<longrightarrow> buffers_below_chunk s"
  shows "0 < audio_chunk_size (snd (process_frame f d s))
       \<and> chunked_queue (snd (process_frame f d s))
       \<and> (no_audio_failure (snd (process_frame f d s))
            \<longrightarrow> buffers_below_chunk (snd (process_frame f d s)))"
proof (cases "dispatch f d s")
  case (Inl e)
  with assms show ?thesis by (simp add: process_frame_def)
next
  case (Inr s')
  have "0 < audio_chunk_size s' \<and> chunked_queue s'
       \<and> (no_audio_failure s' \<longrightarrow> buffers_below_chunk s')"
  proof (cases f)
    case StartFrame
    with Inr have "s' = emit (PushFrame StartFrame d) (start s)" by (simp add: push_frame_def)
    with inv_keeps [OF keeps_emit, of "start s"] inv_start [OF assms] show ?thesis by simp
  next
    case CancelFrame
    with Inr have "s' = emit (PushFrame CancelFrame d) (stop s)" by (simp add: push_frame_def)
    with inv_keeps [OF keeps_trans [OF keeps_stop keeps_emit] assms] show ?thesis by simp
  next
    case StartInterruptionFrame
    with Inr have "s' = emit (PushFrame f d) (handle_interruptions f s)" by (simp add: push_frame_def)
    with inv_keeps [OF keeps_trans [OF keeps_handle_interruptions keeps_emit] assms]
    show ?thesis by simp
  next
    case StopInterruptionFrame
    with Inr have "s' = emit (PushFrame f d) (handle_interruptions f s)" by (simp add: push_frame_def)
    with inv_keeps [OF keeps_trans [OF keeps_handle_interruptions keeps_emit] assms]
    show ?thesis by simp
  next
    case (SystemFrame p)
    with Inr have "s' = emit (PushFrame f d) s" by (simp add: push_frame_def)
    with inv_keeps [OF keeps_emit assms] show ?thesis by simp
  next
    case (AudioRawFrame a)
    with Inr have "handle_audio a s = Inr s'" by simp
    from inv_handle_audio [OF this assms] show ?thesis .
  qed (use Inr inv_put_nowait [OF _ assms, of f] in simp_all)
  with Inr show ?thesis by (simp add: process_frame_def)
qed

lemma inv_step:
  assumes "0 < audio_chunk_size s" and "chunked_queue s"
    and "no_audio_failure s \<longrightarrow> buffers_below_chunk s"
  shows "0 < audio_chunk_size (step c s a) \<and> chunked_queue (step c s a)
       \<and> (no_audio_failure (step c s a) \<longrightarrow> buffers_below_chunk (step c s a))"
proof (cases a)
  case (Process f d)
  with inv_process_frame [OF assms] show ?thesis by simp
next
  case (SinkStep i)
  with inv_sink_thread_handler [OF assms] show ?thesis by simp
next
  case (CameraStep i)
  with inv_keeps [OF keeps_camera_out_thread_handler assms] show ?thesis by simp
next
  case (InternalPush f d)
  with inv_keeps [OF keeps_internal_push_frame assms] show ?thesis by simp
next
  case (PushStep k)
  with inv_keeps [OF keeps_push_frame_task_handler assms] show ?thesis by simp
qed

lemma inv_run:
  assumes "0 < audio_chunk_size s" and "chunked_queue s"
    and "no_audio_failure s \<longrightarrow> buffers_below_chunk s"
  shows "0 < audio_chunk_size (run c s acts) \<and> chunked_queue (run c s acts)
       \<and> (no_audio_failure (run c s acts) \<longrightarrow> buffers_below_chunk (run c s acts))"
  using assms
proof (induction acts arbitrary: s)
  case Nil
  then show ?case by (simp add: run_def)
next
  case (Cons a acts)
  from inv_step [OF Cons.prems, of c a]
  have "0 < audio_chunk_size (step c s a)" "chunked_queue (step c s a)"
    "no_audio_failure (step c s a) \<longrightarrow> buffers_below_chunk (step c s a)"
    by simp_all
  from Cons.IH [OF this] show ?case by (simp add: run_def)
qed

lemma audio_chunk_size_step: "audio_chunk_size (step c s a) = audio_chunk_size s"
proof (cases a)
  case (Process f d)
  show ?thesis
  proof (cases "dispatch f d s")
    case (Inl e)
    with Process show ?thesis by (simp add: process_frame_def)
  next
    case (Inr s')
    have "audio_chunk_size s' = audio_chunk_size s"
    proof (cases f)
      case (AudioRawFrame x)
      with Inr have "handle_audio x s = Inr s'" by simp
      from handle_audio_Inr [OF this] show ?thesis by auto
    qed (use Inr in \<open>auto simp: push_frame_def emit_def start_def Let_def stop_def put_nowait_def
           handle_interruptions_def create_push_task_def\<close>)
    with Inr Process show ?thesis by (simp add: process_frame_def)
  qed
next
  case (SinkStep i)
  show ?thesis
  proof (cases "sink_queue s")
    case Nil
    with SinkStep show ?thesis by (simp add: sink_thread_handler_def split: pc.splits)
  next
    case (Cons f rest)
    obtain b s' where
      it: "sink_iteration c f (buffer (sink_threads s ! i)) (s\<lparr>sink_queue := rest\<rparr>) = (b, s')"
      by (cases "sink_iteration c f (buffer (sink_threads s ! i)) (s\<lparr>sink_queue := rest\<rparr>)")
    from sink_iteration_keeps [OF it] have "audio_chunk_size s' = audio_chunk_size s"
      by (simp add: keeps_def)
    with SinkStep Cons it show ?thesis by (simp add: sink_thread_handler_def split: pc.splits)
  qed
next
  case (CameraStep i)
  with keeps_camera_out_thread_handler [of s c i] show ?thesis by (simp add: keeps_def)
next
  case (InternalPush f d)
  then show ?thesis by (simp add: internal_push_frame_def)
next
  case (PushStep k)
  with keeps_push_frame_task_handler [of s k] show ?thesis by (simp add: keeps_def)
qed

lemma audio_chunk_size_run: "audio_chunk_size (run c s acts) = audio_chunk_size s"
  by (induction acts arbitrary: s) (simp_all add: run_def audio_chunk_size_step)

text \<open>
  C3, amended. In every state that a transport with a positive chunk size reaches from its
  initial state, by any schedule of frames processed and of steps of its workers and with
  any collaborators, the accumulation buffer of every sink worker is strictly shorter than
  the chunk size, provided that no write to the audio sink has raised so far. (The buffer
  changes only when a worker processes a dequeued item, so these are the states after an
  item has been processed.)
\<close>

theorem buffer_below_chunk_size:
  assumes "0 < audio_chunk_size (init p allow)"
    and "Log ErrorWritingAudioFrames \<notin> set (trace (run c (init p allow) acts))"
  shows "\<forall>t\<in>set (sink_threads (run c (init p allow) acts)).
           int (length (buffer t)) < audio_chunk_size (init p allow)"
proof -
  have "chunked_queue (init p allow)" "buffers_below_chunk (init p allow)"
    by (simp_all add: chunked_queue_def buffers_below_chunk_def init_def)
  from inv_run [OF assms(1) this(1), of c acts] this(2) assms(2)
  show ?thesis
    by (simp add: no_audio_failure_def buffers_below_chunk_def list_all_iff audio_chunk_size_run)
qed

theorem buffer_below_chunk_size_witness:
  "0 < audio_chunk_size (init params0 True)
   \<and> Log ErrorWritingAudioFrames \<notin> set (trace (run base_collaborators (init params0 True)
         [Process StartFrame Downstream, SinkStep 0,
          Process (AudioRawFrame (audio0 [1, 2, 3])) Downstream, SinkStep 0, SinkStep 0,
          SinkStep 0, SinkStep 0]))
   \<and> sink_threads (run base_collaborators (init params0 True)
         [Process StartFrame Downstream, SinkStep 0,
          Process (AudioRawFrame (audio0 [1, 2, 3])) Downstream, SinkStep 0, SinkStep 0,
          SinkStep 0, SinkStep 0]) = [\<lparr>sink_pc = InLoopBody, buffer = [3]\<rparr>]
   \<and> list_all (\<lambda>t. int (length (buffer t)) < audio_chunk_size (init params0 True))
       (sink_threads (run base_collaborators (init params0 True)
         [Process StartFrame Downstream, SinkStep 0,
          Process (AudioRawFrame (audio0 [1, 2, 3])) Downstream, SinkStep 0, SinkStep 0,
          SinkStep 0, SinkStep 0]))"
proof -
  let ?acts = "[Process StartFrame Downstream, SinkStep 0,
          Process (AudioRawFrame (audio0 [1, 2, 3])) Downstream, SinkStep 0, SinkStep 0,
          SinkStep 0, SinkStep 0]"
  have h: "0 < audio_chunk_size (init params0 True)"
    "Log ErrorWritingAudioFrames \<notin> set (trace (run base_collaborators (init params0 True) ?acts))"
    by code_simp+
  have t: "sink_threads (run base_collaborators (init params0 True) ?acts)
             = [\<lparr>sink_pc = InLoopBody, buffer = [3]\<rparr>]"
    by code_simp
  from buffer_below_chunk_size [OF h]
  have "list_all (\<lambda>t. int (length (buffer t)) < audio_chunk_size (init params0 True))
          (sink_threads (run base_collaborators (init params0 True) ?acts))"
    by (simp only: list_all_iff)
  with h t show ?thesis by blast
qed

text \<open>
  The claim as stated fails as soon as a write raises: the chunk that could not be written
  stays in the buffer, which then holds a full chunk.
\<close>

theorem buffer_below_chunk_size_counterexample:
  "audio_chunk_size
     (run failing_audio_sink (init params0 True)
        [Process StartFrame Downstream, SinkStep 0,
         Process (AudioRawFrame (audio0 [1, 2])) Downstream, SinkStep 0]) = 2
   \<and> sink_threads
       (run failing_audio_sink (init params0 True)
          [Process StartFrame Downstream, SinkStep 0,
           Process (AudioRawFrame (audio0 [1, 2])) Downstream, SinkStep 0])
       = [\<lparr>sink_pc = AtLoopTest, buffer = [1, 2]\<rparr>]
   \<and> trace
       (run failing_audio_sink (init params0 True)
          [Process StartFrame Downstream, SinkStep 0,
           Process (AudioRawFrame (audio0 [1, 2])) Downstream, SinkStep 0])
       = [PushFrame StartFrame Downstream, WriteRawAudioFrames [1, 2], Log ErrorWritingAudioFrames]
   \<and> \<not> list_all
         (\<lambda>t. int (length (buffer t))
               < audio_chunk_size
                   (run failing_audio_sink (init params0 True)
                      [Process StartFrame Downstream, SinkStep 0,
                       Process (AudioRawFrame (audio0 [1, 2])) Downstream, SinkStep 0]))
         (sink_threads
            (run failing_audio_sink (init params0 True)
               [Process StartFrame Downstream, SinkStep 0,
                Process (AudioRawFrame (audio0 [1, 2])) Downstream, SinkStep 0]))"
  by code_simp


end
